theory Spec2Isabelle
  imports Main "HOL-Library.Word"
begin

unbundle bit_operations_syntax

section \<open>Binary to string encode/decode (src/common/encode.c)\<close>

text \<open>
  A shallow embedding of \<^verbatim>\<open>src/common/encode.c\<close>: the Base64 encoder, its validator and
  decoder, the two size calculators, and the dispatching functions over the encode type.

  Conventions of the model.
  \<^item> A byte (\<^verbatim>\<open>unsigned char\<close>) is an \<open>8 word\<close>; a buffer of bytes is a list of them.
  \<^item> A C string (\<^verbatim>\<open>const char *\<close>) is the list of its characters before the terminating
    NUL; \<open>strlen\<close> is the length of that list, and position \<open>strlen\<close> holds the NUL.
  \<^item> A \<^verbatim>\<open>size_t\<close> is 64 bits wide and an \<^verbatim>\<open>unsigned int\<close> 32 bits. Lengths of buffers are
    natural numbers (an object has at most \<^verbatim>\<open>SIZE_MAX\<close> bytes); a subtraction on
    \<^verbatim>\<open>size_t\<close> is \<open>size_sub\<close>, which wraps below zero, and \<^verbatim>\<open>encodeToStrSizeBase64\<close>, which
    is arithmetic on a bare \<^verbatim>\<open>size_t\<close>, is on 64-bit words. The loop counters declared
    \<^verbatim>\<open>unsigned int\<close> are 32-bit words: they wrap around at \<open>2^32\<close>. The counter declared
    \<^verbatim>\<open>int\<close> (\<^verbatim>\<open>destinationIdx\<close> of the decoder) must not pass \<^verbatim>\<open>INT_MAX\<close>: the increment
    that would is undefined in C and ends the computation with \<open>SignedOverflow\<close>.
  \<^item> A loop of the code is a \<^theory_text>\<open>partial_function\<close> into \<open>option\<close>: \<open>None\<close> is a call
    that never returns. \<^verbatim>\<open>THROW\<close> is the result \<open>Some (Inl e)\<close> with the thrown error, a
    normal return is \<open>Some (Inr v)\<close>.
  \<^item> Every read of the source buffer or string is checked: a read outside it (which C
    leaves undefined) ends the computation with \<open>SourceOutOfBounds\<close>, carrying the index.
    A read of \<^verbatim>\<open>decodeBase64Lookup\<close> outside its 256 entries is undefined as well. The
    parameter \<open>outside\<close> says what it does: under \<open>Checked\<close> it ends the computation with
    \<open>LookupOutOfBounds\<close>; under \<open>Unchecked m\<close> it yields \<open>m i\<close>, the \<^verbatim>\<open>int\<close> that the machine
    finds at index \<open>i\<close>, and the computation goes on.
  \<^item> The destination of the encoder is the caller's buffer, a list as long as the buffer:
    \<^verbatim>\<open>destination[destinationIdx++] = c\<close> replaces the element at \<open>destinationIdx\<close>; a write
    outside the buffer ends the computation with \<open>DestinationOutOfBounds\<close>. The result is
    the buffer after the call, and \<open>cstring\<close> reads the text in it. The destination of the
    decoder is the list of the bytes written so far: the code writes from index 0
    upwards, and \<^verbatim>\<open>destinationIdx\<close> is the length of that list.
  \<^item> The \<^verbatim>\<open>ASSERT\<close>s of the code (pointers are not \<^verbatim>\<open>NULL\<close>) hold by the representation of
    buffers as lists, and the \<^verbatim>\<open>FUNCTION_TEST\<close> macros only trace calls.
  \<^item> Whether plain \<^verbatim>\<open>char\<close> is signed is left to the C implementation, so it is a
    parameter \<open>charSigned\<close> of every function that converts a \<^verbatim>\<open>char\<close> to \<^verbatim>\<open>int\<close>.
\<close>

type_synonym uchar = "8 word"
type_synonym size_t = "64 word"
type_synonym uint32 = "32 word"

text \<open>
  Modelled from the spec: the header \<^verbatim>\<open>common/encode.h\<close>, which declares the enum
  \<^verbatim>\<open>EncodeType\<close>, is not among the sources. The spec describes the codec variant as a tag with
  one supported variant, Base64. A C enum variable can hold other values as well (the
  error message prints the tag with \<^verbatim>\<open>%u\<close>); \<open>encodeInvalid n\<close> stands for them.
\<close>

datatype EncodeType = encodeBase64 | encodeInvalid nat

text \<open>
  Modelled from the spec: the header \<^verbatim>\<open>common/error.h\<close>, with the error types and the
  \<^verbatim>\<open>THROW\<close>, \<^verbatim>\<open>TRY_BEGIN\<close> and \<^verbatim>\<open>CATCH\<close> macros, is not among the sources. The spec names two
  error kinds, the unsupported-variant error (\<^verbatim>\<open>AssertError\<close> in the code) and the format
  error (\<^verbatim>\<open>FormatError\<close>); a thrown error goes to the immediate caller, and
  \<^verbatim>\<open>CATCH(FormatError)\<close> handles a format error only. A message is kept as its format
  string with the values printed.
\<close>

datatype message =
    InvalidEncodeType EncodeType  \<comment> \<open>invalid encode type %u\<close>
  | SizeNotDivisibleBy4 nat       \<comment> \<open>base64 size %zu is not evenly divisible by 4\<close>
  | PadNotInLastTwo               \<comment> \<open>base64 '=' character may only appear in last two positions\<close>
  | LastMustBePad                 \<comment> \<open>base64 last character must be '=' if second to last is\<close>
  | InvalidCharacterAt nat        \<comment> \<open>base64 invalid character found at position %u\<close>

text \<open>
  \<open>AssertError\<close> and \<open>FormatError\<close> are the errors that the code throws. The other
  constructors are no errors of the program: they mark the places where C leaves the
  behaviour undefined, and the computation ends there.
\<close>

datatype error =
    AssertError message
  | FormatError message
  | LookupOutOfBounds int        \<comment> \<open>read outside a lookup table, at this index\<close>
  | SourceOutOfBounds int        \<comment> \<open>read outside the source buffer or string, at this index\<close>
  | DestinationOutOfBounds int   \<comment> \<open>write outside the destination buffer, at this index\<close>
  | SignedOverflow               \<comment> \<open>increment of an \<^verbatim>\<open>int\<close> that holds \<^verbatim>\<open>INT_MAX\<close>\<close>

text \<open>
  What a read of \<^verbatim>\<open>decodeBase64Lookup\<close> outside the table does: it ends the computation
  (\<open>Checked\<close>), or it yields the value \<open>m i\<close> for the index \<open>i\<close> (\<open>Unchecked m\<close>).
\<close>

datatype outside = Checked | Unchecked "int \<Rightarrow> int"

definition bindE :: "error + 'a \<Rightarrow> ('a \<Rightarrow> error + 'b) \<Rightarrow> error + 'b" where
  "bindE r f = (case r of Inl e \<Rightarrow> Inl e | Inr v \<Rightarrow> f v)"

text \<open>\<^verbatim>\<open>ENCODE_TYPE_INVALID_ERROR(encodeType)\<close>\<close>

definition ENCODE_TYPE_INVALID_ERROR :: "EncodeType \<Rightarrow> error + 'a" where
  "ENCODE_TYPE_INVALID_ERROR encodeType = Inl (AssertError (InvalidEncodeType encodeType))"

text \<open>\<^verbatim>\<open>a - b\<close> on \<^verbatim>\<open>size_t\<close> values: below zero the result wraps around \<open>2^64\<close>.\<close>

definition size_sub :: "nat \<Rightarrow> nat \<Rightarrow> nat" where
  "size_sub a b = (if b \<le> a then a - b else a + 2 ^ 64 - b)"

subsection \<open>Reading and writing buffers and strings\<close>

text \<open>\<^verbatim>\<open>source[i]\<close> on a buffer of bytes whose extent is the list.\<close>

definition byteAt :: "uchar list \<Rightarrow> int \<Rightarrow> error + uchar" where
  "byteAt source i =
     (if 0 \<le> i \<and> i < int (length source) then Inr (source ! nat i)
      else Inl (SourceOutOfBounds i))"

definition strlen :: "string \<Rightarrow> nat" where
  "strlen source = length source"

text \<open>\<^verbatim>\<open>source[i]\<close> on a C string: the characters, then the terminating NUL.\<close>

definition charAt :: "string \<Rightarrow> int \<Rightarrow> error + char" where
  "charAt source i =
     (if 0 \<le> i \<and> i < int (length source) then Inr (source ! nat i)
      else if i = int (length source) then Inr (CHR 0x00)
      else Inl (SourceOutOfBounds i))"

text \<open>\<^verbatim>\<open>(int)c\<close> for a plain \<^verbatim>\<open>char\<close>.\<close>

definition charToInt :: "bool \<Rightarrow> char \<Rightarrow> int" where
  "charToInt charSigned c =
     (if charSigned then sint (of_char c :: 8 word) else uint (of_char c :: 8 word))"

text \<open>
  \<^verbatim>\<open>destination[destinationIdx++] = c\<close> in the encoder, where \<^verbatim>\<open>destinationIdx\<close> is an
  \<^verbatim>\<open>unsigned int\<close>: the write, then the increment, which wraps at \<open>2^32\<close>.
\<close>

definition writeChar :: "string \<Rightarrow> uint32 \<Rightarrow> char \<Rightarrow> error + string" where
  "writeChar destination destinationIdx c =
     (if unat destinationIdx < length destination
      then Inr (destination[unat destinationIdx := c])
      else Inl (DestinationOutOfBounds (uint destinationIdx)))"

definition put :: "string \<times> uint32 \<Rightarrow> char \<Rightarrow> error + string \<times> uint32" where
  "put st c =
     bindE (writeChar (fst st) (snd st) c) (\<lambda>destination. Inr (destination, snd st + 1))"

text \<open>The text that a buffer holds: its characters before the first NUL.\<close>

definition cstring :: "string \<Rightarrow> string" where
  "cstring buffer = takeWhile (\<lambda>c. c \<noteq> CHR 0x00) buffer"

text \<open>
  \<^verbatim>\<open>destination[destinationIdx++] = b\<close> in the decoder, where \<^verbatim>\<open>destinationIdx\<close> is an
  \<^verbatim>\<open>int\<close> and equals the number of bytes written so far.
\<close>

definition putByte :: "uchar list \<Rightarrow> uchar \<Rightarrow> error + uchar list" where
  "putByte destination b =
     (if int (length destination) = 2147483647 then Inl SignedOverflow
      else Inr (destination @ [b]))"

subsection \<open>Base64 encoding\<close>

text \<open>The array \<^verbatim>\<open>encodeBase64Lookup[]\<close>: the 64 symbols and the NUL that ends the literal.\<close>

definition encodeBase64Lookup :: "string" where
  "encodeBase64Lookup =
     ''ABCDEFGHIJKLMNOPQRSTUVWXYZabcdefghijklmnopqrstuvwxyz0123456789+/'' @ [CHR 0x00]"

definition encodeBase64LookupAt :: "int \<Rightarrow> error + char" where
  "encodeBase64LookupAt i =
     (if 0 \<le> i \<and> i < int (length encodeBase64Lookup) then Inr (encodeBase64Lookup ! nat i)
      else Inl (LookupOutOfBounds i))"

text \<open>
  The body of the loop of \<^verbatim>\<open>encodeToStrBase64\<close>, for the group that starts at
  \<open>sourceIdx\<close>; \<open>st\<close> is the destination buffer with \<^verbatim>\<open>destinationIdx\<close>. The bytes are
  promoted to \<^verbatim>\<open>int\<close> before the shifts and masks, as in C; \<^verbatim>\<open>sourceIdx + 1\<close> and
  \<^verbatim>\<open>sourceIdx + 2\<close> are computed on \<^verbatim>\<open>unsigned int\<close>, and \<^verbatim>\<open>sourceSize - sourceIdx\<close> on
  \<^verbatim>\<open>size_t\<close>.
\<close>

definition encodeGroup ::
  "uchar list \<Rightarrow> nat \<Rightarrow> uint32 \<Rightarrow> string \<times> uint32 \<Rightarrow> error + string \<times> uint32" where
  "encodeGroup source sourceSize sourceIdx st =
     bindE (byteAt source (uint sourceIdx)) (\<lambda>b0.
     bindE (encodeBase64LookupAt (drop_bit 2 (uint b0))) (\<lambda>c0.
     bindE (put st c0) (\<lambda>st.
       if size_sub sourceSize (unat sourceIdx) = 1 then
         bindE (encodeBase64LookupAt (push_bit 4 (uint b0 AND 0x03))) (\<lambda>c1.
         bindE (put st c1) (\<lambda>st.
         bindE (put st (CHR 0x3D)) (\<lambda>st.
         put st (CHR 0x3D))))
       else
         bindE (byteAt source (uint (sourceIdx + 1))) (\<lambda>b1.
         bindE (encodeBase64LookupAt
                  (push_bit 4 (uint b0 AND 0x03) OR drop_bit 4 (uint b1 AND 0xf0))) (\<lambda>c1.
         bindE (put st c1) (\<lambda>st.
           if size_sub sourceSize (unat sourceIdx) = 2 then
             bindE (encodeBase64LookupAt (push_bit 2 (uint b1 AND 0x0f))) (\<lambda>c2.
             bindE (put st c2) (\<lambda>st.
             put st (CHR 0x3D)))
           else
             bindE (byteAt source (uint (sourceIdx + 2))) (\<lambda>b2.
             bindE (encodeBase64LookupAt
                      (push_bit 2 (uint b1 AND 0x0f) OR drop_bit 6 (uint b2 AND 0xc0))) (\<lambda>c2.
             bindE (put st c2) (\<lambda>st.
             bindE (encodeBase64LookupAt (uint b2 AND 0x3f)) (\<lambda>c3.
             put st c3))))))))))"

text \<open>
  The loop \<^verbatim>\<open>for (unsigned int sourceIdx = 0; sourceIdx < sourceSize; sourceIdx += 3)\<close>.
  The comparison is on \<^verbatim>\<open>size_t\<close>, the increment on \<^verbatim>\<open>unsigned int\<close>.
\<close>

partial_function (option) encodeLoop ::
  "uchar list \<Rightarrow> nat \<Rightarrow> uint32 \<Rightarrow> string \<times> uint32 \<Rightarrow> (error + string \<times> uint32) option" where
  "encodeLoop source sourceSize sourceIdx st =
     (if unat sourceIdx < sourceSize then
        (case encodeGroup source sourceSize sourceIdx st of
           Inl e \<Rightarrow> Some (Inl e)
         | Inr st' \<Rightarrow> encodeLoop source sourceSize (sourceIdx + 3) st')
      else Some (Inr st))"

text \<open>
  \<^verbatim>\<open>encodeToStrBase64\<close>: the loop from \<^verbatim>\<open>destinationIdx = 0\<close>, then
  \<^verbatim>\<open>destination[destinationIdx] = 0\<close>.
\<close>

definition encodeToStrBase64 :: "uchar list \<Rightarrow> nat \<Rightarrow> string \<Rightarrow> (error + string) option" where
  "encodeToStrBase64 source sourceSize destination =
     (case encodeLoop source sourceSize 0 (destination, 0) of
        None \<Rightarrow> None
      | Some (Inl e) \<Rightarrow> Some (Inl e)
      | Some (Inr st) \<Rightarrow> Some (writeChar (fst st) (snd st) (CHR 0x00)))"

text \<open>\<^verbatim>\<open>encodeToStrSizeBase64\<close>, on \<^verbatim>\<open>size_t\<close>: every operation wraps at \<open>2^64\<close>.\<close>

definition encodeToStrSizeBase64 :: "size_t \<Rightarrow> size_t" where
  "encodeToStrSizeBase64 sourceSize =
     (let encodeGroupTotal = sourceSize div 3;
          encodeGroupTotal =
            (if sourceSize mod 3 \<noteq> 0 then encodeGroupTotal + 1 else encodeGroupTotal)
      in encodeGroupTotal * 4)"

subsection \<open>Base64 decoding\<close>

definition decodeBase64Lookup :: "int list" where
  "decodeBase64Lookup =
     [-1, -1, -1, -1, -1, -1, -1, -1, -1, -1, -1, -1, -1, -1, -1, -1] @
     [-1, -1, -1, -1, -1, -1, -1, -1, -1, -1, -1, -1, -1, -1, -1, -1] @
     [-1, -1, -1, -1, -1, -1, -1, -1, -1, -1, -1, 62, -1, -1, -1, 63] @
     [52, 53, 54, 55, 56, 57, 58, 59, 60, 61, -1, -1, -1, -1, -1, -1] @
     [-1,  0,  1,  2,  3,  4,  5,  6,  7,  8,  9, 10, 11, 12, 13, 14] @
     [15, 16, 17, 18, 19, 20, 21, 22, 23, 24, 25, -1, -1, -1, -1, -1] @
     [-1, 26, 27, 28, 29, 30, 31, 32, 33, 34, 35, 36, 37, 38, 39, 40] @
     [41, 42, 43, 44, 45, 46, 47, 48, 49, 50, 51, -1, -1, -1, -1, -1] @
     [-1, -1, -1, -1, -1, -1, -1, -1, -1, -1, -1, -1, -1, -1, -1, -1] @
     [-1, -1, -1, -1, -1, -1, -1, -1, -1, -1, -1, -1, -1, -1, -1, -1] @
     [-1, -1, -1, -1, -1, -1, -1, -1, -1, -1, -1, -1, -1, -1, -1, -1] @
     [-1, -1, -1, -1, -1, -1, -1, -1, -1, -1, -1, -1, -1, -1, -1, -1] @
     [-1, -1, -1, -1, -1, -1, -1, -1, -1, -1, -1, -1, -1, -1, -1, -1] @
     [-1, -1, -1, -1, -1, -1, -1, -1, -1, -1, -1, -1, -1, -1, -1, -1] @
     [-1, -1, -1, -1, -1, -1, -1, -1, -1, -1, -1, -1, -1, -1, -1, -1] @
     [-1, -1, -1, -1, -1, -1, -1, -1, -1, -1, -1, -1, -1, -1, -1, -1]"

text \<open>
  \<^verbatim>\<open>decodeBase64Lookup[i]\<close>, the table having 256 entries (16 rows of 16). Outside the
  table the read is undefined in C: \<open>Checked\<close> stops there, \<open>Unchecked m\<close> goes on with the
  value \<open>m i\<close>.
\<close>

definition decodeBase64LookupAt :: "outside \<Rightarrow> int \<Rightarrow> error + int" where
  "decodeBase64LookupAt outside i =
     (if 0 \<le> i \<and> i < 256 then Inr (decodeBase64Lookup ! nat i)
      else case outside of
             Checked \<Rightarrow> Inl (LookupOutOfBounds i)
           | Unchecked m \<Rightarrow> Inr (m i))"

text \<open>
  The body of the loop of \<^verbatim>\<open>decodeToBinValidateBase64\<close>; \<open>sourceIdx\<close> is the value of the
  counter, which the body reads and compares (on \<^verbatim>\<open>size_t\<close>) but does not change.
\<close>

definition validateChar :: "outside \<Rightarrow> bool \<Rightarrow> string \<Rightarrow> nat \<Rightarrow> nat \<Rightarrow> error + unit" where
  "validateChar outside charSigned source sourceSize sourceIdx =
     bindE (charAt source (int sourceIdx)) (\<lambda>c.
       if c = CHR 0x3D then
         if sourceIdx < size_sub sourceSize 2 then Inl (FormatError PadNotInLastTwo)
         else if sourceIdx = size_sub sourceSize 2 then
           bindE (charAt source (int (size_sub sourceSize 1))) (\<lambda>l.
             if l \<noteq> CHR 0x3D then Inl (FormatError LastMustBePad) else Inr ())
         else Inr ()
       else
         bindE (decodeBase64LookupAt outside (charToInt charSigned c)) (\<lambda>v.
           if v = -1 then Inl (FormatError (InvalidCharacterAt sourceIdx)) else Inr ()))"

text \<open>
  The loop \<^verbatim>\<open>for (unsigned int sourceIdx = 0; sourceIdx < sourceSize; sourceIdx++)\<close>: the
  comparison is on \<^verbatim>\<open>size_t\<close>, the increment on \<^verbatim>\<open>unsigned int\<close>, where \<open>2^32 - 1\<close> is
  followed by 0.
\<close>

partial_function (option) validateLoop ::
  "outside \<Rightarrow> bool \<Rightarrow> string \<Rightarrow> nat \<Rightarrow> uint32 \<Rightarrow> (error + unit) option" where
  "validateLoop outside charSigned source sourceSize sourceIdx =
     (if unat sourceIdx < sourceSize then
        (case validateChar outside charSigned source sourceSize (unat sourceIdx) of
           Inl e \<Rightarrow> Some (Inl e)
         | Inr u \<Rightarrow> validateLoop outside charSigned source sourceSize (sourceIdx + 1))
      else Some (Inr ()))"

definition decodeToBinValidateBase64 :: "outside \<Rightarrow> bool \<Rightarrow> string \<Rightarrow> (error + unit) option" where
  "decodeToBinValidateBase64 outside charSigned source =
     (let sourceSize = strlen source
      in if sourceSize mod 4 \<noteq> 0 then Some (Inl (FormatError (SizeNotDivisibleBy4 sourceSize)))
         else validateLoop outside charSigned source sourceSize 0)"

text \<open>\<^verbatim>\<open>decodeBase64Lookup[(int)source[i]]\<close>\<close>

definition lookupChar :: "outside \<Rightarrow> bool \<Rightarrow> string \<Rightarrow> int \<Rightarrow> error + int" where
  "lookupChar outside charSigned source i =
     bindE (charAt source i) (\<lambda>c. decodeBase64LookupAt outside (charToInt charSigned c))"

text \<open>
  The body of the loop of \<^verbatim>\<open>decodeToBinBase64\<close>, for the four characters that start at
  \<open>sourceIdx\<close>; \<open>destination\<close> holds the bytes written so far. \<^verbatim>\<open>sourceIdx + 1\<close>,
  \<^verbatim>\<open>sourceIdx + 2\<close> and \<^verbatim>\<open>sourceIdx + 3\<close> are computed on \<^verbatim>\<open>unsigned int\<close>. The table values
  are \<^verbatim>\<open>int\<close>, shifted and combined as integers, and \<^verbatim>\<open>(unsigned char)\<close> keeps the low 8
  bits. For the values \<open>0..63\<close> of the table this is the result that C defines; for any
  other value (one that an unchecked read outside the table has yielded) it is what a
  two's complement machine computes.
\<close>

definition decodeGroup ::
  "outside \<Rightarrow> bool \<Rightarrow> string \<Rightarrow> uint32 \<Rightarrow> uchar list \<Rightarrow> error + uchar list" where
  "decodeGroup outside charSigned source sourceIdx destination =
     bindE (lookupChar outside charSigned source (uint sourceIdx)) (\<lambda>v0.
     bindE (lookupChar outside charSigned source (uint (sourceIdx + 1))) (\<lambda>v1.
     bindE (putByte destination (word_of_int (push_bit 2 v0 OR drop_bit 4 v1))) (\<lambda>destination.
     bindE (charAt source (uint (sourceIdx + 2))) (\<lambda>c2.
     bindE (if c2 \<noteq> CHR 0x3D then
              bindE (lookupChar outside charSigned source (uint (sourceIdx + 1))) (\<lambda>w1.
              bindE (lookupChar outside charSigned source (uint (sourceIdx + 2))) (\<lambda>w2.
              putByte destination (word_of_int (push_bit 4 w1 OR drop_bit 2 w2))))
            else Inr destination) (\<lambda>destination.
     bindE (charAt source (uint (sourceIdx + 3))) (\<lambda>c3.
       if c3 \<noteq> CHR 0x3D then
         bindE (lookupChar outside charSigned source (uint (sourceIdx + 2))) (\<lambda>w2.
         bindE (lookupChar outside charSigned source (uint (sourceIdx + 3))) (\<lambda>w3.
         putByte destination (word_of_int ((push_bit 6 w2 AND 0xc0) OR w3))))
       else Inr destination))))))"

text \<open>
  The loop
  \<^verbatim>\<open>for (unsigned int sourceIdx = 0; sourceIdx < strlen(source); sourceIdx += 4)\<close>.
\<close>

partial_function (option) decodeLoop ::
  "outside \<Rightarrow> bool \<Rightarrow> string \<Rightarrow> uint32 \<Rightarrow> uchar list \<Rightarrow> (error + uchar list) option" where
  "decodeLoop outside charSigned source sourceIdx destination =
     (if unat sourceIdx < strlen source then
        (case decodeGroup outside charSigned source sourceIdx destination of
           Inl e \<Rightarrow> Some (Inl e)
         | Inr destination' \<Rightarrow> decodeLoop outside charSigned source (sourceIdx + 4) destination')
      else Some (Inr destination))"

text \<open>\<^verbatim>\<open>decodeToBinBase64\<close>: the validation, then the loop from \<^verbatim>\<open>destinationIdx = 0\<close>.\<close>

definition decodeToBinBase64 :: "outside \<Rightarrow> bool \<Rightarrow> string \<Rightarrow> (error + uchar list) option" where
  "decodeToBinBase64 outside charSigned source =
     (case decodeToBinValidateBase64 outside charSigned source of
        None \<Rightarrow> None
      | Some (Inl e) \<Rightarrow> Some (Inl e)
      | Some (Inr u) \<Rightarrow> decodeLoop outside charSigned source 0 [])"

text \<open>
  \<^verbatim>\<open>decodeToBinSizeBase64\<close>. The indices \<^verbatim>\<open>sourceSize - 1\<close> and \<^verbatim>\<open>sourceSize - 2\<close> are
  computed on \<^verbatim>\<open>size_t\<close>: for the empty string the first is \<^verbatim>\<open>SIZE_MAX\<close>, which addresses
  the byte before the string.
\<close>

definition decodeToBinSizeBase64 :: "outside \<Rightarrow> bool \<Rightarrow> string \<Rightarrow> (error + nat) option" where
  "decodeToBinSizeBase64 outside charSigned source =
     (case decodeToBinValidateBase64 outside charSigned source of
        None \<Rightarrow> None
      | Some (Inl e) \<Rightarrow> Some (Inl e)
      | Some (Inr u) \<Rightarrow>
          Some (let sourceSize = strlen source;
                    destinationSize = sourceSize div 4 * 3
                in bindE (charAt source (int (size_sub sourceSize 1))) (\<lambda>l.
                     if l = CHR 0x3D then
                       bindE (charAt source (int (size_sub sourceSize 2))) (\<lambda>s.
                         if s = CHR 0x3D then Inr (size_sub (size_sub destinationSize 1) 1)
                         else Inr (size_sub destinationSize 1))
                     else Inr destinationSize)))"

subsection \<open>Generic encoding/decoding\<close>

definition encodeToStr ::
  "EncodeType \<Rightarrow> uchar list \<Rightarrow> nat \<Rightarrow> string \<Rightarrow> (error + string) option" where
  "encodeToStr encodeType source sourceSize destination =
     (if encodeType = encodeBase64 then encodeToStrBase64 source sourceSize destination
      else Some (ENCODE_TYPE_INVALID_ERROR encodeType))"

definition encodeToStrSize :: "EncodeType \<Rightarrow> size_t \<Rightarrow> error + size_t" where
  "encodeToStrSize encodeType sourceSize =
     (if encodeType = encodeBase64 then Inr (encodeToStrSizeBase64 sourceSize)
      else ENCODE_TYPE_INVALID_ERROR encodeType)"

definition decodeToBin ::
  "outside \<Rightarrow> bool \<Rightarrow> EncodeType \<Rightarrow> string \<Rightarrow> (error + uchar list) option" where
  "decodeToBin outside charSigned encodeType source =
     (if encodeType = encodeBase64 then decodeToBinBase64 outside charSigned source
      else Some (ENCODE_TYPE_INVALID_ERROR encodeType))"

definition decodeToBinSize ::
  "outside \<Rightarrow> bool \<Rightarrow> EncodeType \<Rightarrow> string \<Rightarrow> (error + nat) option" where
  "decodeToBinSize outside charSigned encodeType source =
     (if encodeType = encodeBase64 then decodeToBinSizeBase64 outside charSigned source
      else Some (ENCODE_TYPE_INVALID_ERROR encodeType))"

definition decodeToBinValidate ::
  "outside \<Rightarrow> bool \<Rightarrow> EncodeType \<Rightarrow> string \<Rightarrow> (error + unit) option" where
  "decodeToBinValidate outside charSigned encodeType source =
     (if encodeType = encodeBase64 then decodeToBinValidateBase64 outside charSigned source
      else Some (ENCODE_TYPE_INVALID_ERROR encodeType))"

text \<open>
  \<^verbatim>\<open>decodeToBinValid\<close>: \<^verbatim>\<open>CATCH(FormatError)\<close> handles a thrown format error; any other
  error leaves the \<^verbatim>\<open>TRY\<close> block as it came.
\<close>

definition decodeToBinValid ::
  "outside \<Rightarrow> bool \<Rightarrow> EncodeType \<Rightarrow> string \<Rightarrow> (error + bool) option" where
  "decodeToBinValid outside charSigned encodeType source =
     (case decodeToBinValidate outside charSigned encodeType source of
        None \<Rightarrow> None
      | Some (Inl (FormatError m)) \<Rightarrow> Some (Inr False)
      | Some (Inl e) \<Rightarrow> Some (Inl e)
      | Some (Inr u) \<Rightarrow> Some (Inr True))"

subsection \<open>The encoder as a function of the remaining bytes\<close>

text \<open>
  What the loop of \<^verbatim>\<open>encodeToStrBase64\<close> writes, group by group, as a recursion on the
  bytes still to encode; \<open>symbol v\<close> is the entry \<open>v\<close> of \<^verbatim>\<open>encodeBase64Lookup\<close>. The loop is
  proved to write these characters (\<open>encodeLoop_encodeBytes\<close>), and the function serves the
  proofs about decoding an encoded buffer.
\<close>

definition symbol :: "int \<Rightarrow> char" where
  "symbol v = encodeBase64Lookup ! nat v"

fun encodeBytes :: "uchar list \<Rightarrow> string" where
  "encodeBytes (b0 # b1 # b2 # bs) =
     [symbol (drop_bit 2 (uint b0)),
      symbol (push_bit 4 (uint b0 AND 0x03) OR drop_bit 4 (uint b1 AND 0xf0)),
      symbol (push_bit 2 (uint b1 AND 0x0f) OR drop_bit 6 (uint b2 AND 0xc0)),
      symbol (uint b2 AND 0x3f)] @ encodeBytes bs"
| "encodeBytes [b0, b1] =
     [symbol (drop_bit 2 (uint b0)),
      symbol (push_bit 4 (uint b0 AND 0x03) OR drop_bit 4 (uint b1 AND 0xf0)),
      symbol (push_bit 2 (uint b1 AND 0x0f)),
      CHR 0x3D]"
| "encodeBytes [b0] =
     [symbol (drop_bit 2 (uint b0)),
      symbol (push_bit 4 (uint b0 AND 0x03)),
      CHR 0x3D,
      CHR 0x3D]"
| "encodeBytes [] = []"

section \<open>Properties\<close>

subsection \<open>Results and counters\<close>

lemma bindE_simps [simp]:
  "bindE (Inl e) f = Inl e"
  "bindE (Inr v) f = f v"
  by (simp_all add: bindE_def)

lemma bindE_eq_Inl:
  "bindE r f = Inl e \<longleftrightarrow> r = Inl e \<or> (\<exists>v. r = Inr v \<and> f v = Inl e)"
  by (cases r) simp_all

lemma unat_idx: "k < 4294967296 \<Longrightarrow> unat (of_nat k :: uint32) = k"
  by (simp add: unat_of_nat take_bit_nat_eq_self)

lemma uint_idx: "k < 4294967296 \<Longrightarrow> uint (of_nat k :: uint32) = int k"
  by (simp add: uint_nat unat_idx)

lemma unat_idx_add:
  "k + j < 4294967296 \<Longrightarrow> unat ((of_nat k :: uint32) + of_nat j) = k + j"
  using unat_idx [of "k + j"] by simp

lemma uint_idx_add:
  "k + j < 4294967296 \<Longrightarrow> uint ((of_nat k :: uint32) + of_nat j) = int k + int j"
  using uint_idx [of "k + j"] by simp

lemma unat_succ_le: "unat ((x::uint32) + 1) \<le> unat x + 1"
  by (simp add: unat_word_ariths)

lemma size_sub_simps [simp]: "b \<le> a \<Longrightarrow> size_sub a b = a - b"
  by (simp add: size_sub_def)

subsection \<open>The symbols of the alphabet\<close>

lemma symbol_table:
  "list_all (\<lambda>k. let v = int k in
      encodeBase64LookupAt v = Inr (symbol v) \<and> symbol v \<noteq> CHR 0x3D \<and> symbol v \<noteq> CHR 0x00 \<and>
      decodeBase64LookupAt Checked (charToInt True (symbol v)) = Inr v \<and>
      decodeBase64LookupAt Checked (charToInt False (symbol v)) = Inr v) [0..<64]"
  by code_simp

lemma lookup_Checked:
  "decodeBase64LookupAt Checked i = Inr v \<Longrightarrow> decodeBase64LookupAt outside i = Inr v"
  by (simp add: decodeBase64LookupAt_def split: if_splits)

lemma symbol_props:
  assumes "0 \<le> v" "v < 64"
  shows "encodeBase64LookupAt v = Inr (symbol v)" "symbol v \<noteq> CHR 0x3D"
    "decodeBase64LookupAt outside (charToInt charSigned (symbol v)) = Inr v"
    "symbol v \<noteq> CHR 0x00"
proof -
  from assms have "nat v \<in> set [0..<64]" by auto
  with symbol_table have *: "let v = int (nat v) in
      encodeBase64LookupAt v = Inr (symbol v) \<and> symbol v \<noteq> CHR 0x3D \<and> symbol v \<noteq> CHR 0x00 \<and>
      decodeBase64LookupAt Checked (charToInt True (symbol v)) = Inr v \<and>
      decodeBase64LookupAt Checked (charToInt False (symbol v)) = Inr v"
    unfolding list_all_iff by blast
  from * assms show "encodeBase64LookupAt v = Inr (symbol v)" by (simp add: Let_def)
  from * assms show "symbol v \<noteq> CHR 0x3D" by (simp add: Let_def)
  from * assms show "symbol v \<noteq> CHR 0x00" by (simp add: Let_def)
  from * assms have "decodeBase64LookupAt Checked (charToInt charSigned (symbol v)) = Inr v"
    by (cases charSigned) (simp_all add: Let_def)
  then show "decodeBase64LookupAt outside (charToInt charSigned (symbol v)) = Inr v"
    by (rule lookup_Checked)
qed

subsection \<open>The six-bit values of a group and the bytes they give back\<close>

lemma int_masks:
  "(0x03::int) = mask 2" "(0x3f::int) = mask 6" "(0x0f::int) = mask 4"
  "(0xf0::int) = push_bit 4 (mask 4)" "(0xc0::int) = push_bit 6 (mask 2)"
  by (simp_all add: mask_eq_exp_minus_1 push_bit_eq_mult)

lemma six_bits: "take_bit 6 x = x \<Longrightarrow> 0 \<le> x \<and> x < (64::int)"
  by (simp add: take_bit_int_eq_self_iff)

lemma Suc_Suc_diff_2 [simp]: "\<not> n < 2 \<Longrightarrow> Suc (Suc (n - 2)) = n"
  by simp

lemma index0: "0 \<le> drop_bit 2 (uint (b0::uchar)) \<and> drop_bit 2 (uint b0) < 64"
  by (rule six_bits, rule bit_eqI) (auto simp: bit_simps dest: bit_imp_le_length)

lemma index1_last:
  "0 \<le> push_bit 4 (uint (b0::uchar) AND 0x03) \<and> push_bit 4 (uint b0 AND 0x03) < 64"
  unfolding int_masks
  by (rule six_bits, rule bit_eqI) (auto simp: bit_simps dest: bit_imp_le_length)

lemma index1:
  "0 \<le> push_bit 4 (uint (b0::uchar) AND 0x03) OR drop_bit 4 (uint (b1::uchar) AND 0xf0) \<and>
   push_bit 4 (uint b0 AND 0x03) OR drop_bit 4 (uint b1 AND 0xf0) < 64"
  unfolding int_masks
  by (rule six_bits, rule bit_eqI) (auto simp: bit_simps dest: bit_imp_le_length)

lemma index2_last:
  "0 \<le> push_bit 2 (uint (b1::uchar) AND 0x0f) \<and> push_bit 2 (uint b1 AND 0x0f) < 64"
  unfolding int_masks
  by (rule six_bits, rule bit_eqI) (auto simp: bit_simps dest: bit_imp_le_length)

lemma index2:
  "0 \<le> push_bit 2 (uint (b1::uchar) AND 0x0f) OR drop_bit 6 (uint (b2::uchar) AND 0xc0) \<and>
   push_bit 2 (uint b1 AND 0x0f) OR drop_bit 6 (uint b2 AND 0xc0) < 64"
  unfolding int_masks
  by (rule six_bits, rule bit_eqI) (auto simp: bit_simps dest: bit_imp_le_length)

lemma index3: "0 \<le> uint (b2::uchar) AND 0x3f \<and> uint b2 AND 0x3f < 64"
  unfolding int_masks
  by (rule six_bits, rule bit_eqI) (auto simp: bit_simps dest: bit_imp_le_length)

lemma first_byte:
  "word_of_int (push_bit 2 (drop_bit 2 (uint b0)) OR
     drop_bit 4 (push_bit 4 (uint b0 AND 0x03) OR drop_bit 4 (uint b1 AND 0xf0))) = (b0::uchar)"
  unfolding int_masks
  by (rule bit_word_eqI) (auto simp: bit_simps dest: bit_imp_le_length)

lemma first_byte_last:
  "word_of_int (push_bit 2 (drop_bit 2 (uint b0)) OR
     drop_bit 4 (push_bit 4 (uint b0 AND 0x03))) = (b0::uchar)"
  unfolding int_masks
  by (rule bit_word_eqI) (auto simp: bit_simps dest: bit_imp_le_length)

lemma second_byte:
  "word_of_int (push_bit 4 (push_bit 4 (uint b0 AND 0x03) OR drop_bit 4 (uint b1 AND 0xf0)) OR
     drop_bit 2 (push_bit 2 (uint b1 AND 0x0f) OR drop_bit 6 (uint b2 AND 0xc0))) = (b1::uchar)"
  unfolding int_masks
  by (rule bit_word_eqI) (auto simp: bit_simps dest: bit_imp_le_length)

lemma second_byte_last:
  "word_of_int (push_bit 4 (push_bit 4 (uint b0 AND 0x03) OR drop_bit 4 (uint b1 AND 0xf0)) OR
     drop_bit 2 (push_bit 2 (uint b1 AND 0x0f))) = (b1::uchar)"
  unfolding int_masks
  by (rule bit_word_eqI) (auto simp: bit_simps dest: bit_imp_le_length)

lemma third_byte:
  "word_of_int ((push_bit 6 (push_bit 2 (uint b1 AND 0x0f) OR drop_bit 6 (uint b2 AND 0xc0))
     AND 0xc0) OR (uint b2 AND 0x3f)) = (b2::uchar)"
  unfolding int_masks
  by (rule bit_word_eqI) (auto simp: bit_simps dest: bit_imp_le_length)

subsection \<open>The encoder loop\<close>

lemma lookup_symbol: "0 \<le> v \<and> v < 64 \<Longrightarrow> encodeBase64LookupAt v = Inr (symbol v)"
  by (simp add: symbol_props)

lemma byteAt_append:
  "k < length xs \<Longrightarrow> byteAt (pre @ xs) (int (length pre) + int k) = Inr (xs ! k)"
  by (simp add: byteAt_def nat_add_distrib nth_append)

lemma put_append:
  "length w < 4294967296 \<Longrightarrow>
   put (w @ x # r, of_nat (length w)) c = Inr ((w @ [c]) @ r, of_nat (length (w @ [c])))"
  by (simp add: put_def writeChar_def unat_idx)

lemma put4:
  assumes "length w + 3 < 4294967296"
  shows "bindE (put (w @ x0 # x1 # x2 # x3 # r, of_nat (length w)) c0) (\<lambda>st.
         bindE (put st c1) (\<lambda>st.
         bindE (put st c2) (\<lambda>st. put st c3))) =
         Inr ((w @ [c0, c1, c2, c3]) @ r, of_nat (length (w @ [c0, c1, c2, c3])))"
proof -
  from assms have l: "length w < 4294967296" "length (w @ [c0]) < 4294967296"
    "length ((w @ [c0]) @ [c1]) < 4294967296" "length (((w @ [c0]) @ [c1]) @ [c2]) < 4294967296"
    by simp_all
  show ?thesis
    by (simp only: put_append [OF l(1)] put_append [OF l(2)] put_append [OF l(3)]
          put_append [OF l(4)] bindE_simps) simp
qed

lemma encodeGroup_three:
  assumes "length pre + 2 < 4294967296" "length w + 3 < 4294967296"
  shows "encodeGroup (pre @ b0 # b1 # b2 # bs) (length pre + length (b0 # b1 # b2 # bs))
           (of_nat (length pre)) (w @ x0 # x1 # x2 # x3 # r, of_nat (length w)) =
     Inr ((w @ [symbol (drop_bit 2 (uint b0)),
                symbol (push_bit 4 (uint b0 AND 0x03) OR drop_bit 4 (uint b1 AND 0xf0)),
                symbol (push_bit 2 (uint b1 AND 0x0f) OR drop_bit 6 (uint b2 AND 0xc0)),
                symbol (uint b2 AND 0x3f)]) @ r,
          of_nat (length (w @ [symbol (drop_bit 2 (uint b0)),
                symbol (push_bit 4 (uint b0 AND 0x03) OR drop_bit 4 (uint b1 AND 0xf0)),
                symbol (push_bit 2 (uint b1 AND 0x0f) OR drop_bit 6 (uint b2 AND 0xc0)),
                symbol (uint b2 AND 0x3f)])))"
proof -
  have r: "byteAt (pre @ b0 # b1 # b2 # bs) (uint (of_nat (length pre) :: uint32)) = Inr b0"
    "byteAt (pre @ b0 # b1 # b2 # bs) (uint ((of_nat (length pre) :: uint32) + 1)) = Inr b1"
    "byteAt (pre @ b0 # b1 # b2 # bs) (uint ((of_nat (length pre) :: uint32) + 2)) = Inr b2"
    using byteAt_append [of 0 "b0 # b1 # b2 # bs" pre] byteAt_append [of 1 "b0 # b1 # b2 # bs" pre]
      byteAt_append [of 2 "b0 # b1 # b2 # bs" pre] assms(1)
      uint_idx_add [of "length pre" 0] uint_idx_add [of "length pre" 1]
      uint_idx_add [of "length pre" 2]
    by simp_all
  have s: "(size_sub (length pre + length (b0 # b1 # b2 # bs))
              (unat (of_nat (length pre) :: uint32)) = 1) = False"
    "(size_sub (length pre + length (b0 # b1 # b2 # bs))
              (unat (of_nat (length pre) :: uint32)) = 2) = False"
    using assms(1) by (simp_all add: unat_idx)
  show ?thesis
    unfolding encodeGroup_def
    by (simp only: r s bindE_simps if_False lookup_symbol [OF index0] lookup_symbol [OF index1]
          lookup_symbol [OF index2] lookup_symbol [OF index3] put4 [OF assms(2)])
qed

lemma encodeGroup_two:
  assumes "length pre + 2 < 4294967296" "length w + 3 < 4294967296"
  shows "encodeGroup (pre @ [b0, b1]) (length pre + length [b0, b1])
           (of_nat (length pre)) (w @ x0 # x1 # x2 # x3 # r, of_nat (length w)) =
     Inr ((w @ [symbol (drop_bit 2 (uint b0)),
                symbol (push_bit 4 (uint b0 AND 0x03) OR drop_bit 4 (uint b1 AND 0xf0)),
                symbol (push_bit 2 (uint b1 AND 0x0f)),
                CHR 0x3D]) @ r,
          of_nat (length (w @ [symbol (drop_bit 2 (uint b0)),
                symbol (push_bit 4 (uint b0 AND 0x03) OR drop_bit 4 (uint b1 AND 0xf0)),
                symbol (push_bit 2 (uint b1 AND 0x0f)),
                CHR 0x3D])))"
proof -
  have r: "byteAt (pre @ [b0, b1]) (uint (of_nat (length pre) :: uint32)) = Inr b0"
    "byteAt (pre @ [b0, b1]) (uint ((of_nat (length pre) :: uint32) + 1)) = Inr b1"
    using byteAt_append [of 0 "[b0, b1]" pre] byteAt_append [of 1 "[b0, b1]" pre] assms(1)
      uint_idx_add [of "length pre" 0] uint_idx_add [of "length pre" 1]
    by simp_all
  have s: "(size_sub (length pre + length [b0, b1]) (unat (of_nat (length pre) :: uint32)) = 1)
             = False"
    "(size_sub (length pre + length [b0, b1]) (unat (of_nat (length pre) :: uint32)) = 2) = True"
    using assms(1) by (simp_all add: unat_idx)
  show ?thesis
    unfolding encodeGroup_def
    by (simp only: r s bindE_simps if_False if_True lookup_symbol [OF index0]
          lookup_symbol [OF index1] lookup_symbol [OF index2_last] put4 [OF assms(2)])
qed

lemma encodeGroup_one:
  assumes "length pre + 2 < 4294967296" "length w + 3 < 4294967296"
  shows "encodeGroup (pre @ [b0]) (length pre + length [b0])
           (of_nat (length pre)) (w @ x0 # x1 # x2 # x3 # r, of_nat (length w)) =
     Inr ((w @ [symbol (drop_bit 2 (uint b0)),
                symbol (push_bit 4 (uint b0 AND 0x03)),
                CHR 0x3D, CHR 0x3D]) @ r,
          of_nat (length (w @ [symbol (drop_bit 2 (uint b0)),
                symbol (push_bit 4 (uint b0 AND 0x03)),
                CHR 0x3D, CHR 0x3D])))"
proof -
  have r: "byteAt (pre @ [b0]) (uint (of_nat (length pre) :: uint32)) = Inr b0"
    using byteAt_append [of 0 "[b0]" pre] assms(1) uint_idx_add [of "length pre" 0]
    by simp
  have s: "(size_sub (length pre + length [b0]) (unat (of_nat (length pre) :: uint32)) = 1) = True"
    using assms(1) by (simp add: unat_idx)
  show ?thesis
    unfolding encodeGroup_def
    by (simp only: r s bindE_simps if_True lookup_symbol [OF index0]
          lookup_symbol [OF index1_last] put4 [OF assms(2)])
qed

lemma encodeLoop_step:
  "unat sourceIdx < sourceSize \<Longrightarrow> encodeGroup source sourceSize sourceIdx st = Inr st' \<Longrightarrow>
   encodeLoop source sourceSize sourceIdx st = encodeLoop source sourceSize (sourceIdx + 3) st'"
  by (subst encodeLoop.simps) simp

lemma encodeLoop_done:
  "\<not> unat sourceIdx < sourceSize \<Longrightarrow> encodeLoop source sourceSize sourceIdx st = Some (Inr st)"
  by (subst encodeLoop.simps) simp

lemma length_encodeBytes: "length (encodeBytes xs) = 4 * ((length xs + 2) div 3)"
  by (induction xs rule: encodeBytes.induct) (simp_all, presburger)

lemma four_elements:
  assumes "4 \<le> length r"
  obtains x0 x1 x2 x3 r' where "r = x0 # x1 # x2 # x3 # r'"
proof -
  from assms obtain x0 r0 where 0: "r = x0 # r0" by (cases r) auto
  with assms obtain x1 r1 where 1: "r0 = x1 # r1" by (cases r0) auto
  with 0 assms obtain x2 r2 where 2: "r1 = x2 # r2" by (cases r1) auto
  with 0 1 assms obtain x3 r3 where 3: "r2 = x3 # r3" by (cases r2) auto
  from 0 1 2 3 that show thesis by simp
qed

text \<open>
  While neither counter wraps around, the loop writes the encoding of the remaining bytes
  over the destination, from \<^verbatim>\<open>destinationIdx\<close> on.
\<close>

lemma encodeLoop_encodeBytes:
  assumes "length pre + length xs + 2 < 4294967296"
    "length w + length (encodeBytes xs) \<le> 4294967296"
    "length (encodeBytes xs) \<le> length r"
  shows "encodeLoop (pre @ xs) (length pre + length xs) (of_nat (length pre))
           (w @ r, of_nat (length w)) =
         Some (Inr ((w @ encodeBytes xs) @ drop (length (encodeBytes xs)) r,
                    of_nat (length (w @ encodeBytes xs))))"
  using assms
proof (induction xs arbitrary: pre w r rule: encodeBytes.induct)
  case (1 b0 b1 b2 bs)
  let ?src = "pre @ b0 # b1 # b2 # bs"
  let ?n = "length pre + length (b0 # b1 # b2 # bs)"
  let ?cs = "[symbol (drop_bit 2 (uint b0)),
          symbol (push_bit 4 (uint b0 AND 0x03) OR drop_bit 4 (uint b1 AND 0xf0)),
          symbol (push_bit 2 (uint b1 AND 0x0f) OR drop_bit 6 (uint b2 AND 0xc0)),
          symbol (uint b2 AND 0x3f)]"
  from "1.prems" have "4 \<le> length r" by simp
  then obtain x0 x1 x2 x3 r' where r: "r = x0 # x1 # x2 # x3 # r'" by (rule four_elements)
  from "1.prems" have b: "length pre + 2 < 4294967296" "length w + 3 < 4294967296"
    "unat (of_nat (length pre) :: uint32) < ?n"
    by (simp_all add: unat_idx)
  have "encodeLoop ?src ?n (of_nat (length pre)) (w @ r, of_nat (length w)) =
        encodeLoop ?src ?n (of_nat (length pre) + 3) ((w @ ?cs) @ r', of_nat (length (w @ ?cs)))"
    unfolding r by (rule encodeLoop_step [OF b(3) encodeGroup_three [OF b(1) b(2)]])
  also have "\<dots> = encodeLoop ((pre @ [b0, b1, b2]) @ bs) (length (pre @ [b0, b1, b2]) + length bs)
          (of_nat (length (pre @ [b0, b1, b2]))) ((w @ ?cs) @ r', of_nat (length (w @ ?cs)))"
    by (simp add: numeral_3_eq_3 add.commute)
  also have "\<dots> = Some (Inr (((w @ ?cs) @ encodeBytes bs) @ drop (length (encodeBytes bs)) r',
                    of_nat (length ((w @ ?cs) @ encodeBytes bs))))"
    using "1.prems" r by (intro "1.IH") simp_all
  finally show ?case by (simp add: r)
next
  case (2 b0 b1)
  let ?src = "pre @ [b0, b1]"
  let ?n = "length pre + length [b0, b1]"
  let ?cs = "[symbol (drop_bit 2 (uint b0)),
          symbol (push_bit 4 (uint b0 AND 0x03) OR drop_bit 4 (uint b1 AND 0xf0)),
          symbol (push_bit 2 (uint b1 AND 0x0f)), CHR 0x3D]"
  from "2.prems" have "4 \<le> length r" by simp
  then obtain x0 x1 x2 x3 r' where r: "r = x0 # x1 # x2 # x3 # r'" by (rule four_elements)
  from "2.prems" have b: "length pre + 2 < 4294967296" "length w + 3 < 4294967296"
    "unat (of_nat (length pre) :: uint32) < ?n"
    "\<not> unat (of_nat (length pre) + 3 :: uint32) < ?n"
    using unat_idx_add [of "length pre" 3] by (simp_all add: unat_idx)
  have "encodeLoop ?src ?n (of_nat (length pre)) (w @ r, of_nat (length w)) =
        encodeLoop ?src ?n (of_nat (length pre) + 3) ((w @ ?cs) @ r', of_nat (length (w @ ?cs)))"
    unfolding r by (rule encodeLoop_step [OF b(3) encodeGroup_two [OF b(1) b(2)]])
  also have "\<dots> = Some (Inr ((w @ ?cs) @ r', of_nat (length (w @ ?cs))))"
    by (rule encodeLoop_done [OF b(4)])
  finally show ?case by (simp add: r)
next
  case (3 b0)
  let ?src = "pre @ [b0]"
  let ?n = "length pre + length [b0]"
  let ?cs = "[symbol (drop_bit 2 (uint b0)), symbol (push_bit 4 (uint b0 AND 0x03)),
          CHR 0x3D, CHR 0x3D]"
  from "3.prems" have "4 \<le> length r" by simp
  then obtain x0 x1 x2 x3 r' where r: "r = x0 # x1 # x2 # x3 # r'" by (rule four_elements)
  from "3.prems" have b: "length pre + 2 < 4294967296" "length w + 3 < 4294967296"
    "unat (of_nat (length pre) :: uint32) < ?n"
    "\<not> unat (of_nat (length pre) + 3 :: uint32) < ?n"
    using unat_idx_add [of "length pre" 3] by (simp_all add: unat_idx)
  have "encodeLoop ?src ?n (of_nat (length pre)) (w @ r, of_nat (length w)) =
        encodeLoop ?src ?n (of_nat (length pre) + 3) ((w @ ?cs) @ r', of_nat (length (w @ ?cs)))"
    unfolding r by (rule encodeLoop_step [OF b(3) encodeGroup_one [OF b(1) b(2)]])
  also have "\<dots> = Some (Inr ((w @ ?cs) @ r', of_nat (length (w @ ?cs))))"
    by (rule encodeLoop_done [OF b(4)])
  finally show ?case by (simp add: r)
next
  case 4
  from "4.prems" have "\<not> unat (of_nat (length pre) :: uint32) < length pre + length ([]::uchar list)"
    by (simp add: unat_idx)
  then show ?case by (simp add: encodeLoop_done)
qed

subsection \<open>The text that the encoder leaves in the destination\<close>

lemma encodeBytes_no_NUL: "CHR 0x00 \<notin> set (encodeBytes xs)"
proof (induction xs rule: encodeBytes.induct)
  case (1 b0 b1 b2 bs)
  define v0 where "v0 = drop_bit 2 (uint b0)"
  define v1 where "v1 = push_bit 4 (uint b0 AND 0x03) OR drop_bit 4 (uint b1 AND 0xf0)"
  define v2 where "v2 = push_bit 2 (uint b1 AND 0x0f) OR drop_bit 6 (uint b2 AND 0xc0)"
  define v3 where "v3 = uint b2 AND 0x3f"
  have r: "0 \<le> v0 \<and> v0 < 64" "0 \<le> v1 \<and> v1 < 64" "0 \<le> v2 \<and> v2 < 64" "0 \<le> v3 \<and> v3 < 64"
    unfolding v0_def v1_def v2_def v3_def by (rule index0 index1 index2 index3)+
  have eq: "encodeBytes (b0 # b1 # b2 # bs) =
      symbol v0 # symbol v1 # symbol v2 # symbol v3 # encodeBytes bs"
    unfolding v0_def v1_def v2_def v3_def by (simp only: encodeBytes.simps append.simps)
  from r have "symbol v0 \<noteq> CHR 0x00" "symbol v1 \<noteq> CHR 0x00" "symbol v2 \<noteq> CHR 0x00"
    "symbol v3 \<noteq> CHR 0x00"
    by (simp_all add: symbol_props(4))
  with "1.IH" show ?case unfolding eq by auto
next
  case (2 b0 b1)
  define v0 where "v0 = drop_bit 2 (uint b0)"
  define v1 where "v1 = push_bit 4 (uint b0 AND 0x03) OR drop_bit 4 (uint b1 AND 0xf0)"
  define v2 where "v2 = push_bit 2 (uint b1 AND 0x0f)"
  have r: "0 \<le> v0 \<and> v0 < 64" "0 \<le> v1 \<and> v1 < 64" "0 \<le> v2 \<and> v2 < 64"
    unfolding v0_def v1_def v2_def by (rule index0 index1 index2_last)+
  have eq: "encodeBytes [b0, b1] = symbol v0 # symbol v1 # symbol v2 # [CHR 0x3D]"
    unfolding v0_def v1_def v2_def by (simp only: encodeBytes.simps)
  from r have "symbol v0 \<noteq> CHR 0x00" "symbol v1 \<noteq> CHR 0x00" "symbol v2 \<noteq> CHR 0x00"
    by (simp_all add: symbol_props(4))
  then show ?case unfolding eq by auto
next
  case (3 b0)
  define v0 where "v0 = drop_bit 2 (uint b0)"
  define v1 where "v1 = push_bit 4 (uint b0 AND 0x03)"
  have r: "0 \<le> v0 \<and> v0 < 64" "0 \<le> v1 \<and> v1 < 64"
    unfolding v0_def v1_def by (rule index0 index1_last)+
  have eq: "encodeBytes [b0] = symbol v0 # symbol v1 # [CHR 0x3D, CHR 0x3D]"
    unfolding v0_def v1_def by (simp only: encodeBytes.simps)
  from r have "symbol v0 \<noteq> CHR 0x00" "symbol v1 \<noteq> CHR 0x00"
    by (simp_all add: symbol_props(4))
  then show ?case unfolding eq by auto
next
  case 4
  show ?case by simp
qed

lemma cstring_text: "CHR 0x00 \<notin> set cs \<Longrightarrow> cstring (cs @ CHR 0x00 # r) = cs"
  by (auto simp: cstring_def takeWhile_append)

lemma cstring_encodeBytes: "cstring (encodeBytes xs @ CHR 0x00 # r) = encodeBytes xs"
  by (rule cstring_text [OF encodeBytes_no_NUL])

lemma encodeToStrBase64_text:
  assumes "length b + 2 < 4294967296" "length (encodeBytes b) < 4294967296"
    "length (encodeBytes b) < length destination"
  shows "encodeToStrBase64 b (length b) destination =
         Some (Inr (encodeBytes b @ CHR 0x00 # drop (Suc (length (encodeBytes b))) destination))"
proof -
  let ?L = "length (encodeBytes b)"
  from assms have l: "encodeLoop b (length b) 0 (destination, 0) =
      Some (Inr (encodeBytes b @ drop ?L destination, of_nat ?L))"
    using encodeLoop_encodeBytes [of "[]" b "[]" destination] by simp
  from assms(3) have d: "drop ?L destination = destination ! ?L # drop (Suc ?L) destination"
    by (simp add: Cons_nth_drop_Suc)
  have "writeChar (encodeBytes b @ destination ! ?L # drop (Suc ?L) destination) (of_nat ?L)
          (CHR 0x00) = Inr (encodeBytes b @ CHR 0x00 # drop (Suc ?L) destination)"
    using assms(2) by (simp add: writeChar_def unat_idx)
  with l d show ?thesis by (simp add: encodeToStrBase64_def)
qed

subsection \<open>The validator loop\<close>

lemma charAt_nth: "i < length s \<Longrightarrow> charAt s (int i) = Inr (s ! i)"
  by (simp add: charAt_def)

lemma charToInt_less: "charToInt charSigned c < 256"
proof (cases charSigned)
  case True
  have "sint (of_char c :: 8 word) < 2 ^ (LENGTH(8) - 1)" by (rule sint_lt)
  with True show ?thesis by (simp add: charToInt_def)
next
  case False
  have "uint (of_char c :: 8 word) < 2 ^ LENGTH(8)" by (rule uint_lt2p)
  with False show ?thesis by (simp add: charToInt_def)
qed

lemma charToInt_unsigned: "0 \<le> charToInt False c"
  by (simp add: charToInt_def)

lemma lookup_in_bounds:
  "0 \<le> charToInt charSigned c \<Longrightarrow>
   decodeBase64LookupAt outside (charToInt charSigned c) =
     Inr (decodeBase64Lookup ! nat (charToInt charSigned c))"
  using charToInt_less [of charSigned c] by (simp add: decodeBase64LookupAt_def)

lemma lookup_out_of_bounds:
  "charToInt charSigned c < 0 \<Longrightarrow>
   decodeBase64LookupAt Checked (charToInt charSigned c) =
     Inl (LookupOutOfBounds (charToInt charSigned c))"
  by (simp add: decodeBase64LookupAt_def)


lemma charAt_not_FormatError: "charAt s i \<noteq> Inl (FormatError m)"
  by (simp add: charAt_def)

lemma decodeBase64LookupAt_not_FormatError:
  "decodeBase64LookupAt outside i \<noteq> Inl (FormatError m)"
  by (cases outside) (simp_all add: decodeBase64LookupAt_def)

lemma validateChar_not_size:
  "validateChar outside charSigned s n i \<noteq> Inl (FormatError (SizeNotDivisibleBy4 k))"
  by (auto simp: validateChar_def bindE_eq_Inl charAt_not_FormatError
        decodeBase64LookupAt_not_FormatError split: if_splits)

text \<open>
  What the body of the loop gives at a position inside the text: it passes or throws a
  format error, unless it reads outside the table and the read is checked.
\<close>

lemma validateChar_result:
  assumes "i < length s" "0 \<le> charToInt charSigned (s ! i)"
  shows "validateChar outside charSigned s (length s) i = Inr () \<or>
         (\<exists>m. validateChar outside charSigned s (length s) i = Inl (FormatError m))"
proof -
  from assms(1) have "charAt s (int (size_sub (length s) 1)) = Inr (s ! (length s - 1))"
    using charAt_nth [of "length s - 1" s] by simp
  with assms show ?thesis
    by (simp add: validateChar_def charAt_nth lookup_in_bounds)
qed


lemma validateLoop_step:
  "unat sourceIdx < sourceSize \<Longrightarrow>
   validateChar outside charSigned source sourceSize (unat sourceIdx) = Inr () \<Longrightarrow>
   validateLoop outside charSigned source sourceSize sourceIdx =
     validateLoop outside charSigned source sourceSize (sourceIdx + 1)"
  by (subst validateLoop.simps) simp

lemma validateLoop_error:
  "unat sourceIdx < sourceSize \<Longrightarrow>
   validateChar outside charSigned source sourceSize (unat sourceIdx) = Inl e \<Longrightarrow>
   validateLoop outside charSigned source sourceSize sourceIdx = Some (Inl e)"
  by (subst validateLoop.simps) simp

lemma validateLoop_done:
  "\<not> unat sourceIdx < sourceSize \<Longrightarrow>
   validateLoop outside charSigned source sourceSize sourceIdx = Some (Inr ())"
  by (subst validateLoop.simps) simp

text \<open>What the loop returns, if it returns.\<close>

lemma validateLoop_Inl:
  assumes "validateLoop outside charSigned s n idx = Some (Inl e)"
  shows "\<exists>i < n. validateChar outside charSigned s n i = Inl e"
proof -
  have "\<forall>e'. (Inl e :: error + unit) = Inl e' \<longrightarrow>
      (\<exists>i < n. validateChar outside charSigned s n i = Inl e')"
  proof (rule validateLoop.raw_induct [where P = "\<lambda>outside charSigned s n idx y.
      \<forall>e. y = Inl e \<longrightarrow> (\<exists>i < n. validateChar outside charSigned s n i = Inl e)", OF _ assms])
    fix f outside charSigned source sourceSize and sourceIdx :: uint32 and y
    assume IH: "\<And>outside charSigned source sourceSize sourceIdx y.
        f outside charSigned source sourceSize sourceIdx = Some y \<Longrightarrow>
        \<forall>e. y = Inl e \<longrightarrow> (\<exists>i < sourceSize. validateChar outside charSigned source sourceSize i = Inl e)"
      and body: "(if unat sourceIdx < sourceSize then
          (case validateChar outside charSigned source sourceSize (unat sourceIdx) of
             Inl e \<Rightarrow> Some (Inl e)
           | Inr u \<Rightarrow> f outside charSigned source sourceSize (sourceIdx + 1))
        else Some (Inr ())) = Some y"
    show "\<forall>e. y = Inl e \<longrightarrow>
        (\<exists>i < sourceSize. validateChar outside charSigned source sourceSize i = Inl e)"
    proof (cases "unat sourceIdx < sourceSize")
      case False
      with body show ?thesis by auto
    next
      case True
      show ?thesis
      proof (cases "validateChar outside charSigned source sourceSize (unat sourceIdx)")
        case (Inl e')
        with True body show ?thesis by auto
      next
        case (Inr u)
        with True body have "f outside charSigned source sourceSize (sourceIdx + 1) = Some y"
          by simp
        then show ?thesis by (rule IH)
      qed
    qed
  qed
  then show ?thesis by simp
qed

lemma validateLoop_Inr:
  assumes "validateLoop outside charSigned s n idx = Some (Inr ())"
  shows "n < 4294967296 \<and>
     (\<forall>j. unat idx \<le> j \<and> j < n \<longrightarrow> validateChar outside charSigned s n j = Inr ())"
proof -
  have "Inr () = (Inr () :: error + unit) \<longrightarrow> n < 4294967296 \<and>
     (\<forall>j. unat idx \<le> j \<and> j < n \<longrightarrow> validateChar outside charSigned s n j = Inr ())"
  proof (rule validateLoop.raw_induct [where P = "\<lambda>outside charSigned s n idx y.
      y = Inr () \<longrightarrow> n < 4294967296 \<and>
        (\<forall>j. unat idx \<le> j \<and> j < n \<longrightarrow> validateChar outside charSigned s n j = Inr ())",
      OF _ assms])
    fix f outside charSigned source sourceSize and sourceIdx :: uint32 and y
    assume IH: "\<And>outside charSigned source sourceSize sourceIdx y.
        f outside charSigned source sourceSize sourceIdx = Some y \<Longrightarrow>
        y = Inr () \<longrightarrow> sourceSize < 4294967296 \<and>
          (\<forall>j. unat sourceIdx \<le> j \<and> j < sourceSize \<longrightarrow>
             validateChar outside charSigned source sourceSize j = Inr ())"
      and body: "(if unat sourceIdx < sourceSize then
          (case validateChar outside charSigned source sourceSize (unat sourceIdx) of
             Inl e \<Rightarrow> Some (Inl e)
           | Inr u \<Rightarrow> f outside charSigned source sourceSize (sourceIdx + 1))
        else Some (Inr ())) = Some y"
    show "y = Inr () \<longrightarrow> sourceSize < 4294967296 \<and>
          (\<forall>j. unat sourceIdx \<le> j \<and> j < sourceSize \<longrightarrow>
             validateChar outside charSigned source sourceSize j = Inr ())"
    proof (cases "unat sourceIdx < sourceSize")
      case False
      have "unat sourceIdx < 2 ^ LENGTH(32)" by (rule unsigned_less)
      with False show ?thesis by auto
    next
      case True
      show ?thesis
      proof (cases "validateChar outside charSigned source sourceSize (unat sourceIdx)")
        case (Inl e)
        with True body show ?thesis by auto
      next
        case (Inr u)
        with True body have
          "f outside charSigned source sourceSize (sourceIdx + 1) = Some y" by simp
        then have IH': "y = Inr () \<longrightarrow> sourceSize < 4294967296 \<and>
          (\<forall>j. unat (sourceIdx + 1) \<le> j \<and> j < sourceSize \<longrightarrow>
            validateChar outside charSigned source sourceSize j = Inr ())"
          by (rule IH)
        show ?thesis
        proof (intro impI conjI allI)
          assume "y = Inr ()"
          with IH' show "sourceSize < 4294967296" by simp
        next
          fix j
          assume y: "y = Inr ()" and j: "unat sourceIdx \<le> j \<and> j < sourceSize"
          show "validateChar outside charSigned source sourceSize j = Inr ()"
          proof (cases "j = unat sourceIdx")
            case True
            with Inr show ?thesis by simp
          next
            case False
            with j unat_succ_le [of sourceIdx] have "unat (sourceIdx + 1) \<le> j" by simp
            with IH' y j show ?thesis by simp
          qed
        qed
      qed
    qed
  qed
  then show ?thesis by simp
qed

text \<open>
  A text shorter than \<open>2^32\<close> characters: the counter reaches its length, and the loop
  returns.
\<close>

lemma validateLoop_returns:
  assumes "n < 4294967296" "i \<le> n"
  shows "\<exists>y. validateLoop outside charSigned s n (of_nat i) = Some y"
  using assms
proof (induction "n - i" arbitrary: i)
  case 0
  then have "\<not> unat (of_nat i :: uint32) < n" by (simp add: unat_idx)
  then show ?case by (simp add: validateLoop_done)
next
  case (Suc k)
  then have lt: "unat (of_nat i :: uint32) < n" by (simp add: unat_idx)
  from Suc have u: "unat (of_nat i :: uint32) = i" by (simp add: unat_idx)
  show ?case
  proof (cases "validateChar outside charSigned s n i")
    case (Inl e)
    with lt u show ?thesis by (simp add: validateLoop_error)
  next
    case (Inr v)
    with lt u have "validateLoop outside charSigned s n (of_nat i) =
        validateLoop outside charSigned s n (of_nat (Suc i))"
      by (simp add: validateLoop_step add.commute)
    moreover from Suc have "\<exists>y. validateLoop outside charSigned s n (of_nat (Suc i)) = Some y"
      by (intro Suc.hyps(1)) simp_all
    ultimately show ?thesis by simp
  qed
qed


text \<open>
  The loop reaches every position below \<open>2^32\<close>: if the body throws at such a position,
  the loop throws, there or before.
\<close>

lemma validateLoop_reaches:
  assumes "p < 4294967296" "p < n" "i \<le> p" "validateChar outside charSigned s n p = Inl e"
  shows "\<exists>j e'. j \<le> p \<and> validateChar outside charSigned s n j = Inl e' \<and>
           validateLoop outside charSigned s n (of_nat i) = Some (Inl e')"
  using assms
proof (induction "p - i" arbitrary: i)
  case 0
  then have "i = p" by simp
  with 0 have "unat (of_nat i :: uint32) < n" "unat (of_nat i :: uint32) = p"
    by (simp_all add: unat_idx)
  with 0 have "validateLoop outside charSigned s n (of_nat i) = Some (Inl e)"
    by (simp add: validateLoop_error)
  with 0 show ?case by blast
next
  case (Suc k)
  then have u: "unat (of_nat i :: uint32) = i" "i < n" by (simp_all add: unat_idx)
  show ?case
  proof (cases "validateChar outside charSigned s n i")
    case (Inl e')
    with u have "validateLoop outside charSigned s n (of_nat i) = Some (Inl e')"
      by (simp add: validateLoop_error)
    with Inl Suc.prems show ?thesis by blast
  next
    case (Inr v)
    with u have "validateLoop outside charSigned s n (of_nat i) =
        validateLoop outside charSigned s n (of_nat (Suc i))"
      by (simp add: validateLoop_step add.commute)
    moreover from Suc have "\<exists>j e'. j \<le> p \<and> validateChar outside charSigned s n j = Inl e' \<and>
           validateLoop outside charSigned s n (of_nat (Suc i)) = Some (Inl e')"
      by (intro Suc.hyps(1)) simp_all
    ultimately show ?thesis by simp
  qed
qed

subsection \<open>Validating an encoded buffer\<close>

lemma charAt_append:
  "k < length xs \<Longrightarrow> charAt (pre @ xs) (int (length pre) + int k) = Inr (xs ! k)"
  by (simp add: charAt_def nat_add_distrib nth_append)

lemma validateChar_symbol:
  assumes "0 \<le> v \<and> v < 64"
  shows "validateChar outside charSigned (pre @ symbol v # rest) n (length pre) = Inr ()"
  using assms charAt_append [of 0 "symbol v # rest" pre]
  by (simp add: validateChar_def symbol_props)

lemma validateLoop_symbol:
  assumes "0 \<le> v \<and> v < 64" "length pre < 4294967296"
  shows "validateLoop outside charSigned (pre @ symbol v # rest)
           (length pre + length (symbol v # rest)) (of_nat (length pre)) =
         validateLoop outside charSigned ((pre @ [symbol v]) @ rest)
           (length (pre @ [symbol v]) + length rest) (of_nat (length (pre @ [symbol v])))"
proof -
  from assms(2) have u: "unat (of_nat (length pre) :: uint32) = length pre" by (rule unat_idx)
  have "validateLoop outside charSigned (pre @ symbol v # rest)
           (length pre + length (symbol v # rest)) (of_nat (length pre)) =
        validateLoop outside charSigned (pre @ symbol v # rest)
           (length pre + length (symbol v # rest)) (of_nat (length pre) + 1)"
    by (rule validateLoop_step) (simp_all add: u validateChar_symbol [OF assms(1)])
  then show ?thesis by (simp add: add.commute)
qed

lemma validateLoop_pad1:
  assumes "pre \<noteq> []" "length pre + 1 < 4294967296"
  shows "validateLoop outside charSigned (pre @ [CHR 0x3D]) (length pre + length [CHR 0x3D])
           (of_nat (length pre)) = Some (Inr ())"
proof -
  from assms(2) have u: "unat (of_nat (length pre) :: uint32) = length pre"
    "unat (of_nat (length pre) + 1 :: uint32) = length pre + 1"
    using unat_idx_add [of "length pre" 1] by (simp_all add: unat_idx)
  from assms have "0 < length pre" by simp
  then have "validateChar outside charSigned (pre @ [CHR 0x3D]) (length pre + length [CHR 0x3D])
          (length pre) = Inr ()"
    using charAt_append [of 0 "[CHR 0x3D]" pre]
    by (auto simp: validateChar_def size_sub_def Suc_le_eq)
  then have "validateLoop outside charSigned (pre @ [CHR 0x3D]) (length pre + length [CHR 0x3D])
        (of_nat (length pre))
      = validateLoop outside charSigned (pre @ [CHR 0x3D]) (length pre + length [CHR 0x3D])
        (of_nat (length pre) + 1)"
    by (intro validateLoop_step) (simp_all add: u)
  also have "\<dots> = Some (Inr ())" by (rule validateLoop_done) (simp add: u)
  finally show ?thesis .
qed

lemma validateLoop_pad2:
  assumes "length pre + 2 < 4294967296"
  shows "validateLoop outside charSigned (pre @ [CHR 0x3D, CHR 0x3D])
     (length pre + length [CHR 0x3D, CHR 0x3D]) (of_nat (length pre)) = Some (Inr ())"
proof -
  let ?s = "pre @ [CHR 0x3D, CHR 0x3D]"
  let ?n = "length pre + length [CHR 0x3D, CHR 0x3D]"
  from assms have u: "unat (of_nat (length pre) :: uint32) = length pre"
    "unat (of_nat (length pre) + 1 :: uint32) = length pre + 1"
    "unat (of_nat (length pre) + 1 + 1 :: uint32) = length pre + 2"
    using unat_idx_add [of "length pre" 1] unat_idx_add [of "length pre" 2]
    by (simp_all add: unat_idx add.commute)
  have c: "charAt ?s (int (length pre)) = Inr (CHR 0x3D)"
    "charAt ?s (int (length pre) + 1) = Inr (CHR 0x3D)"
    using charAt_append [of 0 "[CHR 0x3D, CHR 0x3D]" pre]
      charAt_append [of 1 "[CHR 0x3D, CHR 0x3D]" pre] by simp_all
  have "validateChar outside charSigned ?s ?n (length pre) = Inr ()"
    using c by (simp add: validateChar_def size_sub_def add.commute)
  then have "validateLoop outside charSigned ?s ?n (of_nat (length pre)) =
      validateLoop outside charSigned ?s ?n (of_nat (length pre) + 1)"
    by (intro validateLoop_step) (simp_all add: u)
  also have "validateChar outside charSigned ?s ?n (length pre + 1) = Inr ()"
    using c by (simp add: validateChar_def size_sub_def add.commute)
  then have "validateLoop outside charSigned ?s ?n (of_nat (length pre) + 1) =
      validateLoop outside charSigned ?s ?n (of_nat (length pre) + 1 + 1)"
    by (intro validateLoop_step) (simp_all add: u)
  also have "\<dots> = Some (Inr ())" by (rule validateLoop_done) (simp only: u, simp)
  finally show ?thesis .
qed

lemma validateLoop_encodeBytes:
  assumes "length pre + length (encodeBytes xs) < 4294967296"
  shows "validateLoop outside charSigned (pre @ encodeBytes xs)
     (length pre + length (encodeBytes xs)) (of_nat (length pre)) = Some (Inr ())"
  using assms
proof (induction xs arbitrary: pre rule: encodeBytes.induct)
  case (1 b0 b1 b2 bs)
  define v0 where "v0 = drop_bit 2 (uint b0)"
  define v1 where "v1 = push_bit 4 (uint b0 AND 0x03) OR drop_bit 4 (uint b1 AND 0xf0)"
  define v2 where "v2 = push_bit 2 (uint b1 AND 0x0f) OR drop_bit 6 (uint b2 AND 0xc0)"
  define v3 where "v3 = uint b2 AND 0x3f"
  have r: "0 \<le> v0 \<and> v0 < 64" "0 \<le> v1 \<and> v1 < 64" "0 \<le> v2 \<and> v2 < 64" "0 \<le> v3 \<and> v3 < 64"
    unfolding v0_def v1_def v2_def v3_def by (rule index0 index1 index2 index3)+
  have eq: "encodeBytes (b0 # b1 # b2 # bs) =
      symbol v0 # symbol v1 # symbol v2 # symbol v3 # encodeBytes bs"
    unfolding v0_def v1_def v2_def v3_def by (simp only: encodeBytes.simps append.simps)
  from "1.prems" have l: "length pre < 4294967296" "length (pre @ [symbol v0]) < 4294967296"
    "length ((pre @ [symbol v0]) @ [symbol v1]) < 4294967296"
    "length (((pre @ [symbol v0]) @ [symbol v1]) @ [symbol v2]) < 4294967296"
    "length ((((pre @ [symbol v0]) @ [symbol v1]) @ [symbol v2]) @ [symbol v3]) +
       length (encodeBytes bs) < 4294967296"
    unfolding eq by simp_all
  show ?case
    unfolding eq
    by (simp only: validateLoop_symbol [OF r(1) l(1)] validateLoop_symbol [OF r(2) l(2)]
          validateLoop_symbol [OF r(3) l(3)] validateLoop_symbol [OF r(4) l(4)] "1.IH" [OF l(5)])
next
  case (2 b0 b1)
  define v0 where "v0 = drop_bit 2 (uint b0)"
  define v1 where "v1 = push_bit 4 (uint b0 AND 0x03) OR drop_bit 4 (uint b1 AND 0xf0)"
  define v2 where "v2 = push_bit 2 (uint b1 AND 0x0f)"
  have r: "0 \<le> v0 \<and> v0 < 64" "0 \<le> v1 \<and> v1 < 64" "0 \<le> v2 \<and> v2 < 64"
    unfolding v0_def v1_def v2_def by (rule index0 index1 index2_last)+
  have eq: "encodeBytes [b0, b1] = symbol v0 # symbol v1 # symbol v2 # [CHR 0x3D]"
    unfolding v0_def v1_def v2_def by (simp only: encodeBytes.simps)
  have ne: "((pre @ [symbol v0]) @ [symbol v1]) @ [symbol v2] \<noteq> []" by simp
  from "2.prems" have l: "length pre < 4294967296" "length (pre @ [symbol v0]) < 4294967296"
    "length ((pre @ [symbol v0]) @ [symbol v1]) < 4294967296"
    "length (((pre @ [symbol v0]) @ [symbol v1]) @ [symbol v2]) + 1 < 4294967296"
    unfolding eq by simp_all
  show ?case
    unfolding eq
    by (simp only: validateLoop_symbol [OF r(1) l(1)] validateLoop_symbol [OF r(2) l(2)]
          validateLoop_symbol [OF r(3) l(3)] validateLoop_pad1 [OF ne l(4)])
next
  case (3 b0)
  define v0 where "v0 = drop_bit 2 (uint b0)"
  define v1 where "v1 = push_bit 4 (uint b0 AND 0x03)"
  have r: "0 \<le> v0 \<and> v0 < 64" "0 \<le> v1 \<and> v1 < 64"
    unfolding v0_def v1_def by (rule index0 index1_last)+
  have eq: "encodeBytes [b0] = symbol v0 # symbol v1 # [CHR 0x3D, CHR 0x3D]"
    unfolding v0_def v1_def by (simp only: encodeBytes.simps)
  from "3.prems" have l: "length pre < 4294967296" "length (pre @ [symbol v0]) < 4294967296"
    "length ((pre @ [symbol v0]) @ [symbol v1]) + 2 < 4294967296"
    unfolding eq by simp_all
  show ?case
    unfolding eq
    by (simp only: validateLoop_symbol [OF r(1) l(1)] validateLoop_symbol [OF r(2) l(2)]
          validateLoop_pad2 [OF l(3)])
next
  case 4
  then have "\<not> unat (of_nat (length pre) :: uint32) < length pre + length (encodeBytes [])"
    by (simp add: unat_idx)
  then show ?case by (simp add: validateLoop_done)
qed

lemma length_encodeBytes_mod4: "length (encodeBytes xs) mod 4 = 0"
  by (simp add: length_encodeBytes)

lemma validate_encodeBytes:
  assumes "length (encodeBytes xs) < 4294967296"
  shows "decodeToBinValidateBase64 outside charSigned (encodeBytes xs) = Some (Inr ())"
  using validateLoop_encodeBytes [of "[]" xs outside charSigned] assms
  by (simp add: decodeToBinValidateBase64_def strlen_def length_encodeBytes_mod4)

subsection \<open>Decoding an encoded buffer\<close>

lemma bindE_Inr [simp]: "bindE r (\<lambda>x. Inr x) = r"
  by (cases r) simp_all

lemma lookupChar_symbol:
  assumes "k < length xs" "xs ! k = symbol v" "0 \<le> v \<and> v < 64"
  shows "lookupChar outside charSigned (pre @ xs) (int (length pre) + int k) = Inr v"
  using assms by (simp add: lookupChar_def charAt_append symbol_props)

lemma uint_group:
  assumes "length pre + 3 < 4294967296"
  shows "uint (of_nat (length pre) :: uint32) = int (length pre) + int 0"
    "uint (of_nat (length pre) + 1 :: uint32) = int (length pre) + int 1"
    "uint (of_nat (length pre) + 2 :: uint32) = int (length pre) + int 2"
    "uint (of_nat (length pre) + 3 :: uint32) = int (length pre) + int 3"
  using assms uint_idx_add [of "length pre" 0] uint_idx_add [of "length pre" 1]
    uint_idx_add [of "length pre" 2] uint_idx_add [of "length pre" 3]
  by simp_all

lemma decodeGroup_full:
  assumes "0 \<le> v0 \<and> v0 < 64" "0 \<le> v1 \<and> v1 < 64" "0 \<le> v2 \<and> v2 < 64" "0 \<le> v3 \<and> v3 < 64"
    "length pre + 3 < 4294967296"
  shows "decodeGroup outside charSigned
           (pre @ symbol v0 # symbol v1 # symbol v2 # symbol v3 # rest) (of_nat (length pre)) d =
         bindE (putByte d (word_of_int (push_bit 2 v0 OR drop_bit 4 v1))) (\<lambda>d.
         bindE (putByte d (word_of_int (push_bit 4 v1 OR drop_bit 2 v2))) (\<lambda>d.
         putByte d (word_of_int ((push_bit 6 v2 AND 0xc0) OR v3))))"
proof -
  let ?xs = "symbol v0 # symbol v1 # symbol v2 # symbol v3 # rest"
  have l: "lookupChar outside charSigned (pre @ ?xs) (int (length pre) + int 0) = Inr v0"
    "lookupChar outside charSigned (pre @ ?xs) (int (length pre) + int 1) = Inr v1"
    "lookupChar outside charSigned (pre @ ?xs) (int (length pre) + int 2) = Inr v2"
    "lookupChar outside charSigned (pre @ ?xs) (int (length pre) + int 3) = Inr v3"
    using assms lookupChar_symbol [where k = 0 and xs = ?xs and v = v0 and pre = pre]
      lookupChar_symbol [where k = 1 and xs = ?xs and v = v1 and pre = pre]
      lookupChar_symbol [where k = 2 and xs = ?xs and v = v2 and pre = pre]
      lookupChar_symbol [where k = 3 and xs = ?xs and v = v3 and pre = pre]
    by simp_all
  have c: "charAt (pre @ ?xs) (int (length pre) + int 2) = Inr (symbol v2)"
    "charAt (pre @ ?xs) (int (length pre) + int 3) = Inr (symbol v3)"
    using charAt_append [of 2 ?xs pre] charAt_append [of 3 ?xs pre] by simp_all
  show ?thesis
    unfolding decodeGroup_def uint_group [OF assms(5)]
    by (simp only: l c bindE_simps symbol_props(2) [OF assms(3) [THEN conjunct1] assms(3) [THEN conjunct2]]
          symbol_props(2) [OF assms(4) [THEN conjunct1] assms(4) [THEN conjunct2]]
          if_True if_False not_False_eq_True)
qed

lemma decodeGroup_pad1:
  assumes "0 \<le> v0 \<and> v0 < 64" "0 \<le> v1 \<and> v1 < 64" "0 \<le> v2 \<and> v2 < 64"
    "length pre + 3 < 4294967296"
  shows "decodeGroup outside charSigned
           (pre @ symbol v0 # symbol v1 # symbol v2 # CHR 0x3D # rest) (of_nat (length pre)) d =
         bindE (putByte d (word_of_int (push_bit 2 v0 OR drop_bit 4 v1))) (\<lambda>d.
         putByte d (word_of_int (push_bit 4 v1 OR drop_bit 2 v2)))"
proof -
  let ?xs = "symbol v0 # symbol v1 # symbol v2 # CHR 0x3D # rest"
  have l: "lookupChar outside charSigned (pre @ ?xs) (int (length pre) + int 0) = Inr v0"
    "lookupChar outside charSigned (pre @ ?xs) (int (length pre) + int 1) = Inr v1"
    "lookupChar outside charSigned (pre @ ?xs) (int (length pre) + int 2) = Inr v2"
    using assms lookupChar_symbol [where k = 0 and xs = ?xs and v = v0 and pre = pre]
      lookupChar_symbol [where k = 1 and xs = ?xs and v = v1 and pre = pre]
      lookupChar_symbol [where k = 2 and xs = ?xs and v = v2 and pre = pre]
    by simp_all
  have c: "charAt (pre @ ?xs) (int (length pre) + int 2) = Inr (symbol v2)"
    "charAt (pre @ ?xs) (int (length pre) + int 3) = Inr (CHR 0x3D)"
    using charAt_append [of 2 ?xs pre] charAt_append [of 3 ?xs pre] by simp_all
  show ?thesis
    unfolding decodeGroup_def uint_group [OF assms(4)]
    by (simp only: l c bindE_simps bindE_Inr
          symbol_props(2) [OF assms(3) [THEN conjunct1] assms(3) [THEN conjunct2]]
          if_True if_False not_False_eq_True not_True_eq_False simp_thms)
qed

lemma decodeGroup_pad2:
  assumes "0 \<le> v0 \<and> v0 < 64" "0 \<le> v1 \<and> v1 < 64" "length pre + 3 < 4294967296"
  shows "decodeGroup outside charSigned
           (pre @ symbol v0 # symbol v1 # CHR 0x3D # CHR 0x3D # rest) (of_nat (length pre)) d =
         putByte d (word_of_int (push_bit 2 v0 OR drop_bit 4 v1))"
proof -
  let ?xs = "symbol v0 # symbol v1 # CHR 0x3D # CHR 0x3D # rest"
  have l: "lookupChar outside charSigned (pre @ ?xs) (int (length pre) + int 0) = Inr v0"
    "lookupChar outside charSigned (pre @ ?xs) (int (length pre) + int 1) = Inr v1"
    using assms lookupChar_symbol [where k = 0 and xs = ?xs and v = v0 and pre = pre]
      lookupChar_symbol [where k = 1 and xs = ?xs and v = v1 and pre = pre]
    by simp_all
  have c: "charAt (pre @ ?xs) (int (length pre) + int 2) = Inr (CHR 0x3D)"
    "charAt (pre @ ?xs) (int (length pre) + int 3) = Inr (CHR 0x3D)"
    using charAt_append [of 2 ?xs pre] charAt_append [of 3 ?xs pre] by simp_all
  show ?thesis
    unfolding decodeGroup_def uint_group [OF assms(3)]
    by (simp only: l c bindE_simps bindE_Inr if_True if_False not_False_eq_True
          not_True_eq_False simp_thms)
qed

lemma putByte3:
  assumes "length d \<le> 2147483647"
  shows "bindE (putByte d x) (\<lambda>d. bindE (putByte d y) (\<lambda>d. putByte d z)) =
         (if length d + 3 \<le> 2147483647 then Inr (d @ [x, y, z]) else Inl SignedOverflow)"
  using assms by (auto simp: putByte_def)

lemma putByte2:
  assumes "length d \<le> 2147483647"
  shows "bindE (putByte d x) (\<lambda>d. putByte d y) =
         (if length d + 2 \<le> 2147483647 then Inr (d @ [x, y]) else Inl SignedOverflow)"
  using assms by (auto simp: putByte_def)

lemma putByte1:
  assumes "length d \<le> 2147483647"
  shows "putByte d x =
         (if length d + 1 \<le> 2147483647 then Inr (d @ [x]) else Inl SignedOverflow)"
  using assms by (auto simp: putByte_def)

lemma decodeLoop_step:
  "unat sourceIdx < strlen source \<Longrightarrow>
   decodeGroup outside charSigned source sourceIdx destination = Inr destination' \<Longrightarrow>
   decodeLoop outside charSigned source sourceIdx destination =
     decodeLoop outside charSigned source (sourceIdx + 4) destination'"
  by (subst decodeLoop.simps) simp

lemma decodeLoop_error:
  "unat sourceIdx < strlen source \<Longrightarrow>
   decodeGroup outside charSigned source sourceIdx destination = Inl e \<Longrightarrow>
   decodeLoop outside charSigned source sourceIdx destination = Some (Inl e)"
  by (subst decodeLoop.simps) simp

lemma decodeLoop_done:
  "\<not> unat sourceIdx < strlen source \<Longrightarrow>
   decodeLoop outside charSigned source sourceIdx destination = Some (Inr destination)"
  by (subst decodeLoop.simps) simp

text \<open>
  The decoder loop on an encoded buffer of fewer than \<open>2^32\<close> characters: it writes the
  bytes back, unless \<^verbatim>\<open>destinationIdx\<close> would pass \<^verbatim>\<open>INT_MAX\<close>.
\<close>

lemma decodeLoop_encodeBytes:
  assumes "length pre + length (encodeBytes xs) < 4294967296" "length d \<le> 2147483647"
  shows "decodeLoop outside charSigned (pre @ encodeBytes xs) (of_nat (length pre)) d =
         Some (if length d + length xs \<le> 2147483647 then Inr (d @ xs) else Inl SignedOverflow)"
  using assms
proof (induction xs arbitrary: pre d rule: encodeBytes.induct)
  case (1 b0 b1 b2 bs)
  define v0 where "v0 = drop_bit 2 (uint b0)"
  define v1 where "v1 = push_bit 4 (uint b0 AND 0x03) OR drop_bit 4 (uint b1 AND 0xf0)"
  define v2 where "v2 = push_bit 2 (uint b1 AND 0x0f) OR drop_bit 6 (uint b2 AND 0xc0)"
  define v3 where "v3 = uint b2 AND 0x3f"
  have r: "0 \<le> v0 \<and> v0 < 64" "0 \<le> v1 \<and> v1 < 64" "0 \<le> v2 \<and> v2 < 64" "0 \<le> v3 \<and> v3 < 64"
    unfolding v0_def v1_def v2_def v3_def by (rule index0 index1 index2 index3)+
  have eq: "encodeBytes (b0 # b1 # b2 # bs) =
      symbol v0 # symbol v1 # symbol v2 # symbol v3 # encodeBytes bs"
    unfolding v0_def v1_def v2_def v3_def by (simp only: encodeBytes.simps append.simps)
  have bytes: "word_of_int (push_bit 2 v0 OR drop_bit 4 v1) = b0"
    "word_of_int (push_bit 4 v1 OR drop_bit 2 v2) = b1"
    "word_of_int ((push_bit 6 v2 AND 0xc0) OR v3) = b2"
    unfolding v0_def v1_def v2_def v3_def by (rule first_byte second_byte third_byte)+
  let ?src = "pre @ symbol v0 # symbol v1 # symbol v2 # symbol v3 # encodeBytes bs"
  let ?pre = "pre @ [symbol v0, symbol v1, symbol v2, symbol v3]"
  from "1.prems" have b: "length pre + 3 < 4294967296"
    "unat (of_nat (length pre) :: uint32) < strlen ?src"
    unfolding eq by (simp_all add: unat_idx strlen_def)
  have g: "decodeGroup outside charSigned ?src (of_nat (length pre)) d =
      (if length d + 3 \<le> 2147483647 then Inr (d @ [b0, b1, b2]) else Inl SignedOverflow)"
    unfolding decodeGroup_full [OF r b(1)] bytes by (rule putByte3 [OF "1.prems"(2)])
  show ?case
  proof (cases "length d + 3 \<le> 2147483647")
    case False
    with g b(2) have "decodeLoop outside charSigned ?src (of_nat (length pre)) d =
        Some (Inl SignedOverflow)"
      by (simp add: decodeLoop_error)
    with False show ?thesis unfolding eq by simp
  next
    case True
    with g b(2) have "decodeLoop outside charSigned ?src (of_nat (length pre)) d =
        decodeLoop outside charSigned ?src (of_nat (length pre) + 4) (d @ [b0, b1, b2])"
      by (simp add: decodeLoop_step)
    also have "\<dots> = decodeLoop outside charSigned (?pre @ encodeBytes bs) (of_nat (length ?pre))
        (d @ [b0, b1, b2])"
      by (simp add: eval_nat_numeral add.commute)
    also have "\<dots> = Some (if length (d @ [b0, b1, b2]) + length bs \<le> 2147483647
        then Inr ((d @ [b0, b1, b2]) @ bs) else Inl SignedOverflow)"
      using "1.prems" True unfolding eq by (intro "1.IH") simp_all
    finally show ?thesis unfolding eq by simp
  qed
next
  case (2 b0 b1)
  define v0 where "v0 = drop_bit 2 (uint b0)"
  define v1 where "v1 = push_bit 4 (uint b0 AND 0x03) OR drop_bit 4 (uint b1 AND 0xf0)"
  define v2 where "v2 = push_bit 2 (uint b1 AND 0x0f)"
  have r: "0 \<le> v0 \<and> v0 < 64" "0 \<le> v1 \<and> v1 < 64" "0 \<le> v2 \<and> v2 < 64"
    unfolding v0_def v1_def v2_def by (rule index0 index1 index2_last)+
  have eq: "encodeBytes [b0, b1] = symbol v0 # symbol v1 # symbol v2 # [CHR 0x3D]"
    unfolding v0_def v1_def v2_def by (simp only: encodeBytes.simps)
  have bytes: "word_of_int (push_bit 2 v0 OR drop_bit 4 v1) = b0"
    "word_of_int (push_bit 4 v1 OR drop_bit 2 v2) = b1"
    unfolding v0_def v1_def v2_def by (rule first_byte second_byte_last)+
  let ?src = "pre @ symbol v0 # symbol v1 # symbol v2 # [CHR 0x3D]"
  from "2.prems" have b: "length pre + 3 < 4294967296"
    "unat (of_nat (length pre) :: uint32) < strlen ?src"
    "\<not> unat (of_nat (length pre) + 4 :: uint32) < strlen ?src"
    unfolding eq using unat_idx_add [of "length pre" 4] by (simp_all add: unat_idx strlen_def)
  have g: "decodeGroup outside charSigned ?src (of_nat (length pre)) d =
      (if length d + 2 \<le> 2147483647 then Inr (d @ [b0, b1]) else Inl SignedOverflow)"
    unfolding decodeGroup_pad1 [OF r b(1)] bytes by (rule putByte2 [OF "2.prems"(2)])
  show ?case
  proof (cases "length d + 2 \<le> 2147483647")
    case False
    with g b(2) have "decodeLoop outside charSigned ?src (of_nat (length pre)) d =
        Some (Inl SignedOverflow)"
      by (simp add: decodeLoop_error)
    with False show ?thesis unfolding eq by simp
  next
    case True
    with g b(2) have "decodeLoop outside charSigned ?src (of_nat (length pre)) d =
        decodeLoop outside charSigned ?src (of_nat (length pre) + 4) (d @ [b0, b1])"
      by (simp add: decodeLoop_step)
    also have "\<dots> = Some (Inr (d @ [b0, b1]))"
      by (rule decodeLoop_done [OF b(3)])
    finally show ?thesis using True unfolding eq by simp
  qed
next
  case (3 b0)
  define v0 where "v0 = drop_bit 2 (uint b0)"
  define v1 where "v1 = push_bit 4 (uint b0 AND 0x03)"
  have r: "0 \<le> v0 \<and> v0 < 64" "0 \<le> v1 \<and> v1 < 64"
    unfolding v0_def v1_def by (rule index0 index1_last)+
  have eq: "encodeBytes [b0] = symbol v0 # symbol v1 # [CHR 0x3D, CHR 0x3D]"
    unfolding v0_def v1_def by (simp only: encodeBytes.simps)
  have bytes: "word_of_int (push_bit 2 v0 OR drop_bit 4 v1) = b0"
    unfolding v0_def v1_def by (rule first_byte_last)
  let ?src = "pre @ symbol v0 # symbol v1 # [CHR 0x3D, CHR 0x3D]"
  from "3.prems" have b: "length pre + 3 < 4294967296"
    "unat (of_nat (length pre) :: uint32) < strlen ?src"
    "\<not> unat (of_nat (length pre) + 4 :: uint32) < strlen ?src"
    unfolding eq using unat_idx_add [of "length pre" 4] by (simp_all add: unat_idx strlen_def)
  have g: "decodeGroup outside charSigned ?src (of_nat (length pre)) d =
      (if length d + 1 \<le> 2147483647 then Inr (d @ [b0]) else Inl SignedOverflow)"
    unfolding decodeGroup_pad2 [OF r b(1)] bytes by (rule putByte1 [OF "3.prems"(2)])
  show ?case
  proof (cases "length d + 1 \<le> 2147483647")
    case False
    with g b(2) have "decodeLoop outside charSigned ?src (of_nat (length pre)) d =
        Some (Inl SignedOverflow)"
      by (simp add: decodeLoop_error)
    with False show ?thesis unfolding eq by simp
  next
    case True
    with g b(2) have "decodeLoop outside charSigned ?src (of_nat (length pre)) d =
        decodeLoop outside charSigned ?src (of_nat (length pre) + 4) (d @ [b0])"
      by (simp add: decodeLoop_step)
    also have "\<dots> = Some (Inr (d @ [b0]))"
      by (rule decodeLoop_done [OF b(3)])
    finally show ?thesis using True unfolding eq by simp
  qed
next
  case 4
  then have "\<not> unat (of_nat (length pre) :: uint32) < strlen (pre @ encodeBytes [])"
    by (simp add: unat_idx strlen_def)
  with "4.prems" show ?case by (simp add: decodeLoop_done)
qed

lemma decodeToBinBase64_encodeBytes:
  assumes "length (encodeBytes xs) < 4294967296"
  shows "decodeToBinBase64 outside charSigned (encodeBytes xs) =
         Some (if length xs \<le> 2147483647 then Inr xs else Inl SignedOverflow)"
  using decodeLoop_encodeBytes [of "[]" xs "[]" outside charSigned] assms
  by (simp add: decodeToBinBase64_def validate_encodeBytes)

subsection \<open>What validation returns\<close>

lemma validate_Inr:
  assumes "decodeToBinValidateBase64 outside charSigned s = Some (Inr ())"
  shows "length s mod 4 = 0" and "length s < 4294967296"
    and "i < length s \<Longrightarrow> validateChar outside charSigned s (length s) i = Inr ()"
proof -
  from assms show m: "length s mod 4 = 0"
    by (auto simp: decodeToBinValidateBase64_def strlen_def Let_def split: if_splits)
  with assms have l: "validateLoop outside charSigned s (length s) 0 = Some (Inr ())"
    by (simp add: decodeToBinValidateBase64_def strlen_def Let_def)
  from validateLoop_Inr [OF l] show "length s < 4294967296" by simp
  from validateLoop_Inr [OF l]
  show "i < length s \<Longrightarrow> validateChar outside charSigned s (length s) i = Inr ()" by simp
qed

lemma validate_Inl:
  assumes "decodeToBinValidateBase64 outside charSigned s = Some (Inl e)"
  shows "e = FormatError (SizeNotDivisibleBy4 (length s)) \<or>
         (\<exists>i < length s. validateChar outside charSigned s (length s) i = Inl e)"
proof (cases "length s mod 4 = 0")
  case False
  with assms show ?thesis
    by (simp add: decodeToBinValidateBase64_def strlen_def Let_def)
next
  case True
  with assms have "validateLoop outside charSigned s (length s) 0 = Some (Inl e)"
    by (simp add: decodeToBinValidateBase64_def strlen_def Let_def)
  from validateLoop_Inl [OF this] show ?thesis by simp
qed


lemma validate_result:
  assumes "decodeToBinValidateBase64 outside charSigned s = Some y"
    "\<forall>c\<in>set s. 0 \<le> charToInt charSigned c"
  shows "y = Inr () \<or> (\<exists>e. y = Inl (FormatError e))"
proof (cases y)
  case (Inr u)
  then show ?thesis by simp
next
  case (Inl e)
  with assms validate_Inl [of outside charSigned s e]
  consider "e = FormatError (SizeNotDivisibleBy4 (length s))"
    | i where "i < length s" "validateChar outside charSigned s (length s) i = Inl e"
    by auto
  then show ?thesis
  proof cases
    case 1
    with Inl show ?thesis by simp
  next
    case 2
    from 2(1) assms(2) have "0 \<le> charToInt charSigned (s ! i)" by simp
    with validateChar_result [OF 2(1) this, of outside] 2(2) Inl show ?thesis by auto
  qed
qed

lemma validate_returns:
  assumes "length s < 4294967296"
  shows "\<exists>y. decodeToBinValidateBase64 outside charSigned s = Some y"
  using validateLoop_returns [OF assms, of 0 outside charSigned s]
  by (simp add: decodeToBinValidateBase64_def strlen_def Let_def)

lemma validate_not_size:
  "length s mod 4 = 0 \<Longrightarrow>
   decodeToBinValidateBase64 outside charSigned s \<noteq> Some (Inl (FormatError (SizeNotDivisibleBy4 n)))"
  using validate_Inl [of outside charSigned s "FormatError (SizeNotDivisibleBy4 n)"]
    validateChar_not_size [of outside charSigned s "length s" _ n]
  by (auto simp: decodeToBinValidateBase64_def strlen_def Let_def
        dest!: validateLoop_Inl)

section \<open>The claims\<close>

subsection \<open>C1: round trip\<close>



text \<open>
  A buffer of fewer than \<open>3221225470\<close> bytes, encoded into a destination that holds the
  encoding and its NUL: the text in the destination is the encoding, and the decoder
  returns the bytes unless their number is above \<^verbatim>\<open>INT_MAX\<close>, the largest value of its
  counter \<^verbatim>\<open>destinationIdx\<close>.
\<close>

lemma encode_decode:
  assumes "length b < 3221225470" "4 * ((length b + 2) div 3) < length destination"
  shows "\<exists>buffer. encodeToStr encodeBase64 b (length b) destination = Some (Inr buffer) \<and>
           cstring buffer = encodeBytes b \<and>
           decodeToBin outside charSigned encodeBase64 (cstring buffer) =
             Some (if length b \<le> 2147483647 then Inr b else Inl SignedOverflow)"
proof -
  let ?buffer = "encodeBytes b @ CHR 0x00 # drop (Suc (length (encodeBytes b))) destination"
  from assms(1) have L: "length (encodeBytes b) < 4294967296" "length b + 2 < 4294967296"
    by (simp_all add: length_encodeBytes)
  from assms(2) have "length (encodeBytes b) < length destination"
    by (simp add: length_encodeBytes)
  with L have "encodeToStr encodeBase64 b (length b) destination = Some (Inr ?buffer)"
    by (simp add: encodeToStr_def encodeToStrBase64_text)
  moreover have "cstring ?buffer = encodeBytes b" by (rule cstring_encodeBytes)
  moreover have "decodeToBin outside charSigned encodeBase64 (encodeBytes b) =
      Some (if length b \<le> 2147483647 then Inr b else Inl SignedOverflow)"
    using L(1) by (simp add: decodeToBin_def decodeToBinBase64_encodeBytes)
  ultimately show ?thesis by simp
qed

lemma overflow_above_int_max:
  assumes "2147483647 < length b" "length b < 3221225470"
    "4 * ((length b + 2) div 3) < length destination"
  shows "\<exists>buffer. encodeToStr encodeBase64 b (length b) destination = Some (Inr buffer) \<and>
           decodeToBin outside charSigned encodeBase64 (cstring buffer) = Some (Inl SignedOverflow)"
  using encode_decode [OF assms(2,3), of outside charSigned] assms(1) by auto



subsection \<open>C2: the boolean validity check\<close>





text \<open>
  With checked reads of the table, the same holds for the texts none of whose characters
  is negative as an \<^verbatim>\<open>int\<close>: every text when plain \<^verbatim>\<open>char\<close> is unsigned.
\<close>

lemma valid_in_range:
  assumes "length source < 4294967296" "\<forall>c\<in>set source. 0 \<le> charToInt charSigned c"
  shows "decodeToBinValid outside charSigned encodeBase64 source =
        Some (Inr (decodeToBinValidate outside charSigned encodeBase64 source = Some (Inr ())))"
proof -
  from assms(1) obtain y where y: "decodeToBinValidateBase64 outside charSigned source = Some y"
    using validate_returns [of source outside charSigned] by blast
  from validate_result [OF y assms(2)] y show ?thesis
    by (auto simp: decodeToBinValid_def decodeToBinValidate_def)
qed

subsection \<open>C3: the length rule of the validator\<close>

text \<open>The empty text has length 0, a multiple of 4, and passes validation.\<close>

theorem validate_empty_counterexample:
  "decodeToBinValidate Checked True encodeBase64 '''' = Some (Inr ())"
  by (simp add: decodeToBinValidate_def decodeToBinValidateBase64_def strlen_def
      validateLoop_done)

text \<open>
  C3, as the code has it. Validation throws the format error "size is not evenly
  divisible by 4", with the length, whenever the length of the text is not a multiple of
  4; it never throws that error for a text whose length is a multiple of 4, and it returns
  for such a text of fewer than \<open>2^32\<close> characters; and the empty text is accepted.
\<close>

theorem validate_length_rule:
  "(length text mod 4 \<noteq> 0 \<longrightarrow>
      decodeToBinValidate outside charSigned encodeBase64 text =
        Some (Inl (FormatError (SizeNotDivisibleBy4 (length text))))) \<and>
   (length text mod 4 = 0 \<longrightarrow>
      (\<forall>n. decodeToBinValidate outside charSigned encodeBase64 text \<noteq>
        Some (Inl (FormatError (SizeNotDivisibleBy4 n))))) \<and>
   (length text mod 4 = 0 \<and> length text < 4294967296 \<longrightarrow>
      (\<exists>y. decodeToBinValidate outside charSigned encodeBase64 text = Some y)) \<and>
   decodeToBinValidate outside charSigned encodeBase64 '''' = Some (Inr ())"
proof (intro conjI impI allI)
  assume "length text mod 4 \<noteq> 0"
  then show "decodeToBinValidate outside charSigned encodeBase64 text =
        Some (Inl (FormatError (SizeNotDivisibleBy4 (length text))))"
    by (simp add: decodeToBinValidate_def decodeToBinValidateBase64_def strlen_def)
next
  fix n
  assume "length text mod 4 = 0"
  then show "decodeToBinValidate outside charSigned encodeBase64 text \<noteq>
        Some (Inl (FormatError (SizeNotDivisibleBy4 n)))"
    by (simp add: decodeToBinValidate_def validate_not_size)
next
  assume "length text mod 4 = 0 \<and> length text < 4294967296"
  then show "\<exists>y. decodeToBinValidate outside charSigned encodeBase64 text = Some y"
    by (simp add: decodeToBinValidate_def validate_returns)
next
  show "decodeToBinValidate outside charSigned encodeBase64 '''' = Some (Inr ())"
    by (simp add: decodeToBinValidate_def decodeToBinValidateBase64_def strlen_def
        validateLoop_done)
qed

theorem validate_length_rule_witness:
  "length ''TQ='' mod 4 \<noteq> 0 \<and>
   decodeToBinValidate Checked True encodeBase64 ''TQ='' =
     Some (Inl (FormatError (SizeNotDivisibleBy4 3))) \<and>
   length ''TQ=='' mod 4 = 0 \<and>
   decodeToBinValidate Checked True encodeBase64 ''TQ=='' \<noteq>
     Some (Inl (FormatError (SizeNotDivisibleBy4 4))) \<and>
   length ''TQ=='' < 4294967296 \<and>
   decodeToBinValidate Checked True encodeBase64 ''TQ=='' = Some (Inr ()) \<and>
   decodeToBinValidate Checked True encodeBase64 '''' = Some (Inr ())"
  using validate_length_rule [of "''TQ=''" Checked True]
    validate_length_rule [of "''TQ==''" Checked True]
  by (simp add: decodeToBinValidate_def decodeToBinValidateBase64_def strlen_def
      validateLoop.simps validateChar_def charAt_def charToInt_def decodeBase64LookupAt_def
      decodeBase64Lookup_def size_sub_def)

subsection \<open>C4: the size of the encoding\<close>

text \<open>
  \<^verbatim>\<open>encodeToStrSizeBase64\<close> multiplies the number of groups by 4 on \<^verbatim>\<open>size_t\<close>. For
  \<open>sourceSize = 2^64 - 1\<close> there are \<open>6148914691236517205\<close> groups and the product wraps
  around: the result is \<open>6148914691236517204\<close>, not four times the number of groups.
\<close>

theorem encode_size_counterexample:
  "encodeToStrSize encodeBase64 18446744073709551615 = Inr 6148914691236517204 \<and>
   unat (6148914691236517204 :: size_t) \<noteq> 4 * ((unat (18446744073709551615 :: size_t) + 2) div 3)"
  by (simp add: encodeToStrSize_def encodeToStrSizeBase64_def)

lemma unat_div3: "unat ((n::size_t) div 3) = unat n div 3"
  by (simp add: unat_div)

lemma mod3_iff: "((n::size_t) mod 3 = 0) = (unat n mod 3 = 0)"
proof -
  have "unat (n mod 3) = unat n mod 3" by (simp add: unat_mod)
  then show ?thesis by (metis unat_eq_0)
qed

lemma unat_less_size_t: "unat (n::size_t) < 18446744073709551616"
  using unsigned_less [of n, where ?'a = nat] by simp

lemma unat_div3_Suc: "unat ((n::size_t) div 3 + 1) = unat n div 3 + 1"
proof -
  have "unat n div 3 + 1 < 18446744073709551616" using unat_less_size_t [of n] by simp
  then have "unat (n div 3) + unat (1::size_t) < 2 ^ LENGTH(64)" by (simp add: unat_div3)
  then have "unat (n div 3 + 1) = unat (n div 3) + unat (1::size_t)"
    by (simp only: unat_add_lem)
  then show ?thesis by (simp add: unat_div3)
qed

lemma ceil3: "((k::nat) + 2) div 3 = (if k mod 3 \<noteq> 0 then k div 3 + 1 else k div 3)"
  by presburger

lemma unat_encodeToStrSizeBase64:
  "unat (encodeToStrSizeBase64 n) = (4 * ((unat n + 2) div 3)) mod 2 ^ 64"
proof (cases "n mod 3 = 0")
  case True
  then have "unat n mod 3 = 0" by (simp add: mod3_iff)
  then have c: "(unat n + 2) div 3 = unat n div 3" by (simp only: ceil3) simp
  from True have "encodeToStrSizeBase64 n = n div 3 * 4"
    by (simp add: encodeToStrSizeBase64_def)
  then have "unat (encodeToStrSizeBase64 n) = (unat (n div 3) * unat (4::size_t)) mod 2 ^ LENGTH(64)"
    by (simp only: unat_word_ariths)
  then show ?thesis using c by (simp add: unat_div3 mult.commute)
next
  case False
  then have "unat n mod 3 \<noteq> 0" by (simp add: mod3_iff)
  then have c: "(unat n + 2) div 3 = unat n div 3 + 1" by (simp only: ceil3) simp
  from False have "encodeToStrSizeBase64 n = (n div 3 + 1) * 4"
    by (simp add: encodeToStrSizeBase64_def)
  then have "unat (encodeToStrSizeBase64 n) =
      (unat (n div 3 + 1) * unat (4::size_t)) mod 2 ^ LENGTH(64)"
    by (simp only: unat_word_ariths)
  then show ?thesis by (simp only: unat_div3_Suc c) (simp add: mult.commute)
qed

text \<open>
  C4, as the code has it. \<open>encodeToStrSize\<close> for \<open>encodeBase64\<close> returns
  \<open>4 * ceil(n / 3)\<close> reduced modulo \<open>2^64\<close>: exactly \<open>4 * ceil(n / 3)\<close> whenever that
  number fits \<^verbatim>\<open>size_t\<close> (that is, for \<open>n \<le> 13835058055282163709\<close>). The result is always
  divisible by 4, and it is 0 for \<open>n = 0\<close>.
\<close>

theorem encode_size:
  "\<exists>r. encodeToStrSize encodeBase64 n = Inr r \<and>
       unat r = (4 * ((unat n + 2) div 3)) mod 2 ^ 64 \<and>
       (4 * ((unat n + 2) div 3) < 2 ^ 64 \<longrightarrow> unat r = 4 * ((unat n + 2) div 3)) \<and>
       4 dvd unat r \<and>
       (n = 0 \<longrightarrow> r = 0)"
proof -
  let ?r = "encodeToStrSizeBase64 n"
  have "(4::nat) dvd 2 ^ 64" by simp
  then have "4 dvd (4 * ((unat n + 2) div 3)) mod 2 ^ 64"
    by (simp add: dvd_mod)
  then have "4 dvd unat ?r" by (simp only: unat_encodeToStrSizeBase64)
  moreover have "n = 0 \<longrightarrow> ?r = 0" by (simp add: encodeToStrSizeBase64_def)
  ultimately show ?thesis
    by (simp add: encodeToStrSize_def unat_encodeToStrSizeBase64)
qed

theorem encode_size_witness:
  "encodeToStrSize encodeBase64 5 = Inr 8 \<and>
   unat (8 :: size_t) = (4 * ((unat (5 :: size_t) + 2) div 3)) mod 2 ^ 64 \<and>
   4 * ((unat (5 :: size_t) + 2) div 3) < (2 ^ 64 :: nat) \<and>
   unat (8 :: size_t) = 4 * ((unat (5 :: size_t) + 2) div 3) \<and>
   4 dvd unat (8 :: size_t) \<and>
   encodeToStrSize encodeBase64 0 = Inr 0"
  using encode_size [of 5] encode_size [of 0]
  by (simp add: encodeToStrSize_def encodeToStrSizeBase64_def)

subsection \<open>C5: the size of the decoding\<close>

text \<open>
  For a text that passes validation and is not empty, \<open>decodeToBinSize\<close> returns
  \<open>length / 4 * 3\<close>, minus 1 if the last character is \<^verbatim>\<open>=\<close>, minus a further 1 if the
  second-to-last is \<^verbatim>\<open>=\<close> too; and for a text on which validation throws, it throws the
  same error.
\<close>

lemma size_sub_twice:
  "3 \<le> k \<Longrightarrow> size_sub k 1 = k - 1 \<and> size_sub (size_sub k 1) 1 = k - 1 - 1"
  by (simp add: size_sub_def)

lemma decodeToBinSize_valid:
  assumes "decodeToBinValidate outside charSigned encodeBase64 source = Some (Inr ())"
    "source \<noteq> []"
  shows "decodeToBinSize outside charSigned encodeBase64 source =
     Some (Inr (length source div 4 * 3
            - (if source ! (length source - 1) = CHR 0x3D then 1 else 0)
            - (if source ! (length source - 1) = CHR 0x3D \<and> source ! (length source - 2) = CHR 0x3D
               then 1 else 0)))"
proof -
  from assms(1) have v: "decodeToBinValidateBase64 outside charSigned source = Some (Inr ())"
    by (simp add: decodeToBinValidate_def)
  from validate_Inr(1) [OF v] assms(2) have len: "4 \<le> length source"
    by (cases "length source < 4") auto
  then have r: "charAt source (int (size_sub (strlen source) 1)) = Inr (source ! (length source - 1))"
    "charAt source (int (size_sub (strlen source) 2)) = Inr (source ! (length source - 2))"
    using charAt_nth [of "length source - 1" source] charAt_nth [of "length source - 2" source]
    by (simp_all add: strlen_def)
  have "decodeToBinSize outside charSigned encodeBase64 source =
      Some (if source ! (length source - 1) = CHR 0x3D
       then if source ! (length source - 2) = CHR 0x3D
            then Inr (size_sub (size_sub (strlen source div 4 * 3) 1) 1)
            else Inr (size_sub (strlen source div 4 * 3) 1)
       else Inr (strlen source div 4 * 3))"
    unfolding decodeToBinSize_def decodeToBinSizeBase64_def
    by (simp only: v r sum.case option.case Let_def bindE_simps if_True refl)
  moreover from len have "3 \<le> strlen source div 4 * 3" unfolding strlen_def by arith
  ultimately show ?thesis
    using size_sub_twice [of "strlen source div 4 * 3"]
    by (simp only: strlen_def) simp
qed

lemma decodeToBinSize_invalid:
  "decodeToBinValidate outside charSigned encodeBase64 source = Some (Inl e) \<Longrightarrow>
   decodeToBinSize outside charSigned encodeBase64 source = Some (Inl e)"
  by (simp add: decodeToBinValidate_def decodeToBinSize_def decodeToBinSizeBase64_def)

text \<open>
  C5, at the empty text. The empty text passes validation, and \<open>decodeToBinSize\<close> then
  reads \<^verbatim>\<open>source[sourceSize - 1]\<close> with \<open>sourceSize = 0\<close>: the index is \<^verbatim>\<open>SIZE_MAX\<close>, outside
  the string. The claim gives the size \<open>0 / 4 * 3 = 0\<close> for this text.
\<close>

theorem decode_size_empty:
  "decodeToBinValidate outside charSigned encodeBase64 '''' = Some (Inr ()) \<and>
   decodeToBinSize outside charSigned encodeBase64 '''' =
     Some (Inl (SourceOutOfBounds 18446744073709551615))"
  by (simp add: decodeToBinValidate_def decodeToBinSize_def decodeToBinSizeBase64_def
      decodeToBinValidateBase64_def strlen_def validateLoop_done charAt_def size_sub_def)

subsection \<open>C6: the placement of the pad character\<close>

lemma validateChar_pad_early:
  assumes "i < length s" "s ! i = CHR 0x3D" "i + 2 < length s"
  shows "validateChar outside charSigned s (length s) i = Inl (FormatError PadNotInLastTwo)"
proof -
  from assms have "i < size_sub (length s) 2" by (simp add: size_sub_def)
  with assms show ?thesis by (simp add: validateChar_def charAt_nth)
qed

lemma validateChar_pad_unpaired:
  assumes "s ! i = CHR 0x3D" "i + 2 = length s" "s ! (i + 1) \<noteq> CHR 0x3D"
  shows "validateChar outside charSigned s (length s) i = Inl (FormatError LastMustBePad)"
proof -
  from assms have c: "charAt s (int i) = Inr (CHR 0x3D)"
    using charAt_nth [of i s] by simp
  from assms have s1: "size_sub (length s) 1 = i + 1" by (simp add: size_sub_def)
  from assms have l: "charAt s (int (size_sub (length s) 1)) = Inr (s ! (i + 1))"
    unfolding s1 by (intro charAt_nth) simp
  from assms have s2: "size_sub (length s) 2 = i" by (simp add: size_sub_def)
  show ?thesis
    unfolding validateChar_def
    by (simp only: c l s2 bindE_simps assms(3) if_True if_False less_irrefl refl simp_thms)
qed

lemma validateChar_pad:
  assumes "i < length s" "s ! i = CHR 0x3D"
    "i + 2 < length s \<or> (i + 2 = length s \<and> s ! (i + 1) \<noteq> CHR 0x3D)"
  shows "\<exists>e. validateChar outside charSigned s (length s) i = Inl (FormatError e)"
  using assms validateChar_pad_early [of i s outside charSigned]
    validateChar_pad_unpaired [of s i outside charSigned]
  by auto




text \<open>
  With checked reads of the table, the same holds for the texts none of whose characters
  is negative as an \<^verbatim>\<open>int\<close> (every text when plain \<^verbatim>\<open>char\<close> is unsigned), and the two
  examples of the claim are rejected in every case.
\<close>

lemma pad_in_range:
  assumes "i < length source" "source ! i = CHR 0x3D"
    and "i + 2 < length source \<or> (i + 2 = length source \<and> source ! (i + 1) \<noteq> CHR 0x3D)"
    and "i < 4294967296" "\<forall>c\<in>set source. 0 \<le> charToInt charSigned c"
  shows "\<exists>e. decodeToBinValidate outside charSigned encodeBase64 source =
           Some (Inl (FormatError e))"
proof (cases "length source mod 4 = 0")
  case False
  then show ?thesis
    by (simp add: decodeToBinValidate_def decodeToBinValidateBase64_def strlen_def)
next
  case True
  from validateChar_pad [OF assms(1-3), of outside charSigned] obtain e where
    e: "validateChar outside charSigned source (length source) i = Inl (FormatError e)"
    by blast
  from validateLoop_reaches [OF assms(4) assms(1) _ e, of 0] obtain j e' where
    j: "j \<le> i" "validateChar outside charSigned source (length source) j = Inl e'"
      "validateLoop outside charSigned source (length source) (of_nat 0) = Some (Inl e')"
    by auto
  from j(1) assms(1) have l: "j < length source" by simp
  with assms(5) have "0 \<le> charToInt charSigned (source ! j)" by simp
  from validateChar_result [OF l this, of outside] j(2)
  obtain e'' where "e' = FormatError e''" by auto
  with j(3) True show ?thesis
    by (simp add: decodeToBinValidate_def decodeToBinValidateBase64_def strlen_def)
qed

lemma pad_examples:
  "decodeToBinValidate outside charSigned encodeBase64 ''Q=QA'' =
     Some (Inl (FormatError PadNotInLastTwo))"
  "decodeToBinValidate outside charSigned encodeBase64 ''QQ=A'' =
     Some (Inl (FormatError LastMustBePad))"
  by (cases charSigned;
      simp add: decodeToBinValidate_def decodeToBinValidateBase64_def strlen_def
        validateLoop.simps validateChar_def charAt_def charToInt_def decodeBase64LookupAt_def
        decodeBase64Lookup_def)+

subsection \<open>C7: concrete vectors\<close>

text \<open>
  C7. Encoding the empty buffer gives the empty text; the bytes \<open>4D\<close>, \<open>4D 61\<close> and
  \<open>4D 61 6E\<close> encode to \<open>TQ==\<close>, \<open>TWE=\<close> and \<open>TWFu\<close>, written with their NUL at the start
  of a destination that has room for them; and \<open>TQ==\<close> and \<open>TWFu\<close> decode to \<open>4D\<close> and
  \<open>4D 61 6E\<close>, whether plain \<^verbatim>\<open>char\<close> is signed or not.
\<close>

theorem concrete_vectors:
  "encodeToStr encodeBase64 [] 0 (d0 # ds) = Some (Inr (CHR 0x00 # ds)) \<and>
   cstring (CHR 0x00 # ds) = '''' \<and>
   encodeToStr encodeBase64 [0x4D] 1 (d0 # d1 # d2 # d3 # d4 # ds) =
     Some (Inr (''TQ=='' @ CHR 0x00 # ds)) \<and>
   cstring (''TQ=='' @ CHR 0x00 # ds) = ''TQ=='' \<and>
   encodeToStr encodeBase64 [0x4D, 0x61] 2 (d0 # d1 # d2 # d3 # d4 # ds) =
     Some (Inr (''TWE='' @ CHR 0x00 # ds)) \<and>
   cstring (''TWE='' @ CHR 0x00 # ds) = ''TWE='' \<and>
   encodeToStr encodeBase64 [0x4D, 0x61, 0x6E] 3 (d0 # d1 # d2 # d3 # d4 # ds) =
     Some (Inr (''TWFu'' @ CHR 0x00 # ds)) \<and>
   cstring (''TWFu'' @ CHR 0x00 # ds) = ''TWFu'' \<and>
   decodeToBin outside charSigned encodeBase64 ''TQ=='' = Some (Inr [0x4D]) \<and>
   decodeToBin outside charSigned encodeBase64 ''TWFu'' = Some (Inr [0x4D, 0x61, 0x6E])"
proof -
  have e: "encodeToStr encodeBase64 [] 0 (d0 # ds) = Some (Inr (CHR 0x00 # ds))"
    "encodeToStr encodeBase64 [0x4D] 1 (d0 # d1 # d2 # d3 # d4 # ds) =
       Some (Inr (''TQ=='' @ CHR 0x00 # ds))"
    "encodeToStr encodeBase64 [0x4D, 0x61] 2 (d0 # d1 # d2 # d3 # d4 # ds) =
       Some (Inr (''TWE='' @ CHR 0x00 # ds))"
    "encodeToStr encodeBase64 [0x4D, 0x61, 0x6E] 3 (d0 # d1 # d2 # d3 # d4 # ds) =
       Some (Inr (''TWFu'' @ CHR 0x00 # ds))"
    by (simp_all add: encodeToStr_def encodeToStrBase64_def encodeLoop.simps encodeGroup_def
        put_def writeChar_def byteAt_def encodeBase64LookupAt_def encodeBase64Lookup_def
        size_sub_def)
  have c: "cstring (CHR 0x00 # ds) = ''''" "cstring (''TQ=='' @ CHR 0x00 # ds) = ''TQ==''"
    "cstring (''TWE='' @ CHR 0x00 # ds) = ''TWE=''"
    "cstring (''TWFu'' @ CHR 0x00 # ds) = ''TWFu''"
    by (simp_all add: cstring_def)
  have d: "decodeToBin outside charSigned encodeBase64 ''TQ=='' = Some (Inr [0x4D])"
    "decodeToBin outside charSigned encodeBase64 ''TWFu'' = Some (Inr [0x4D, 0x61, 0x6E])"
    by (cases charSigned;
        simp add: decodeToBin_def decodeToBinBase64_def decodeToBinValidateBase64_def strlen_def
          validateLoop.simps validateChar_def charAt_def charToInt_def decodeBase64LookupAt_def
          decodeBase64Lookup_def size_sub_def decodeLoop.simps decodeGroup_def lookupChar_def
          putByte_def)+
  from e c d show ?thesis by (simp only: simp_thms)
qed

subsection \<open>C8: unsupported encode types\<close>

text \<open>
  C8. For an encode type other than \<open>encodeBase64\<close>, each of \<open>encodeToStr\<close>,
  \<open>encodeToStrSize\<close>, \<open>decodeToBin\<close>, \<open>decodeToBinSize\<close> and \<open>decodeToBinValidate\<close> throws the
  assert error "invalid encode type", whatever its other arguments are: nothing is
  encoded, decoded or measured.
\<close>

theorem unsupported_variant:
  "encodeType \<noteq> encodeBase64 \<Longrightarrow>
     encodeToStr encodeType source sourceSize destination
       = Some (Inl (AssertError (InvalidEncodeType encodeType))) \<and>
     encodeToStrSize encodeType n
       = Inl (AssertError (InvalidEncodeType encodeType)) \<and>
     decodeToBin outside charSigned encodeType text
       = Some (Inl (AssertError (InvalidEncodeType encodeType))) \<and>
     decodeToBinSize outside charSigned encodeType text
       = Some (Inl (AssertError (InvalidEncodeType encodeType))) \<and>
     decodeToBinValidate outside charSigned encodeType text
       = Some (Inl (AssertError (InvalidEncodeType encodeType)))"
  by (simp add: encodeToStr_def encodeToStrSize_def decodeToBin_def decodeToBinSize_def
      decodeToBinValidate_def ENCODE_TYPE_INVALID_ERROR_def)

theorem unsupported_variant_witness:
  "encodeInvalid 999 \<noteq> encodeBase64 \<and>
     encodeToStr (encodeInvalid 999) [0x4D] 1 ''xxxxx''
       = Some (Inl (AssertError (InvalidEncodeType (encodeInvalid 999)))) \<and>
     encodeToStrSize (encodeInvalid 999) 1
       = Inl (AssertError (InvalidEncodeType (encodeInvalid 999))) \<and>
     decodeToBin Checked True (encodeInvalid 999) ''TQ==''
       = Some (Inl (AssertError (InvalidEncodeType (encodeInvalid 999)))) \<and>
     decodeToBinSize Checked True (encodeInvalid 999) ''TQ==''
       = Some (Inl (AssertError (InvalidEncodeType (encodeInvalid 999)))) \<and>
     decodeToBinValidate Checked True (encodeInvalid 999) ''TQ==''
       = Some (Inl (AssertError (InvalidEncodeType (encodeInvalid 999))))"
  using unsupported_variant [of "encodeInvalid 999" "[0x4D]" 1 "''xxxxx''" 1 Checked True "''TQ==''"]
  by simp

subsection \<open>C9: the index into the inverse table\<close>

text \<open>
  When no character of the text is negative as an \<^verbatim>\<open>int\<close> (every text when plain
  \<^verbatim>\<open>char\<close> is unsigned), the validator and the decoder read \<^verbatim>\<open>decodeBase64Lookup\<close> inside
  its 256 entries only.
\<close>

lemma lookupChar_in_bounds:
  assumes "\<forall>c\<in>set s. 0 \<le> charToInt charSigned c"
  shows "lookupChar outside charSigned s i \<noteq> Inl (LookupOutOfBounds k)"
proof (cases "charAt s i")
  case (Inl e)
  then have "e = SourceOutOfBounds i" by (auto simp: charAt_def split: if_splits)
  with Inl show ?thesis by (simp add: lookupChar_def)
next
  case (Inr c)
  then have "c \<in> set s \<or> c = CHR 0x00" by (auto simp: charAt_def split: if_splits)
  moreover have "charToInt charSigned (CHR 0x00) = 0" by (cases charSigned) (simp_all add: charToInt_def)
  ultimately have "0 \<le> charToInt charSigned c" using assms by auto
  with Inr show ?thesis by (simp add: lookupChar_def lookup_in_bounds)
qed

lemma charAt_not_Lookup: "charAt s i \<noteq> Inl (LookupOutOfBounds k)"
  by (simp add: charAt_def)

lemma putByte_not_Lookup: "putByte d b \<noteq> Inl (LookupOutOfBounds k)"
  by (simp add: putByte_def)

lemma decodeGroup_in_bounds:
  assumes "\<forall>c\<in>set s. 0 \<le> charToInt charSigned c"
  shows "decodeGroup outside charSigned s i d \<noteq> Inl (LookupOutOfBounds k)"
  using lookupChar_in_bounds [OF assms, of outside]
  by (auto simp: decodeGroup_def bindE_eq_Inl charAt_not_Lookup putByte_not_Lookup
        split: if_splits)

text \<open>An error that the decoder loop throws is thrown by its body.\<close>

lemma decodeLoop_Inl:
  assumes "decodeLoop outside charSigned s idx d = Some (Inl e)"
  shows "\<exists>i d'. decodeGroup outside charSigned s i d' = Inl e"
proof -
  have "\<forall>e'. (Inl e :: error + uchar list) = Inl e' \<longrightarrow>
      (\<exists>i d'. decodeGroup outside charSigned s i d' = Inl e')"
  proof (rule decodeLoop.raw_induct [where P = "\<lambda>outside charSigned s idx d y.
      \<forall>e'. y = Inl e' \<longrightarrow> (\<exists>i d'. decodeGroup outside charSigned s i d' = Inl e')", OF _ assms])
    fix f outside charSigned source and sourceIdx :: uint32 and destination y
    assume IH: "\<And>outside charSigned source sourceIdx destination y.
        f outside charSigned source sourceIdx destination = Some y \<Longrightarrow>
        \<forall>e'. y = Inl e' \<longrightarrow> (\<exists>i d'. decodeGroup outside charSigned source i d' = Inl e')"
      and body: "(if unat sourceIdx < strlen source then
          (case decodeGroup outside charSigned source sourceIdx destination of
             Inl e \<Rightarrow> Some (Inl e)
           | Inr destination' \<Rightarrow> f outside charSigned source (sourceIdx + 4) destination')
        else Some (Inr destination)) = Some y"
    show "\<forall>e'. y = Inl e' \<longrightarrow> (\<exists>i d'. decodeGroup outside charSigned source i d' = Inl e')"
    proof (cases "unat sourceIdx < strlen source")
      case False
      with body show ?thesis by auto
    next
      case True
      show ?thesis
      proof (cases "decodeGroup outside charSigned source sourceIdx destination")
        case (Inl e'')
        with True body show ?thesis by auto
      next
        case (Inr destination')
        with True body have "f outside charSigned source (sourceIdx + 4) destination' = Some y"
          by simp
        then show ?thesis by (rule IH)
      qed
    qed
  qed
  then show ?thesis by simp
qed

lemma lookups_in_bounds:
  assumes "\<forall>c\<in>set s. 0 \<le> charToInt charSigned c"
  shows "decodeToBinValidate outside charSigned encodeBase64 s \<noteq> Some (Inl (LookupOutOfBounds k))"
    and "decodeToBin outside charSigned encodeBase64 s \<noteq> Some (Inl (LookupOutOfBounds k))"
proof -
  show v: "decodeToBinValidate outside charSigned encodeBase64 s \<noteq>
      Some (Inl (LookupOutOfBounds k))"
  proof
    assume "decodeToBinValidate outside charSigned encodeBase64 s = Some (Inl (LookupOutOfBounds k))"
    then have "decodeToBinValidateBase64 outside charSigned s = Some (Inl (LookupOutOfBounds k))"
      by (simp add: decodeToBinValidate_def)
    from validate_result [OF this assms] show False by simp
  qed
  show "decodeToBin outside charSigned encodeBase64 s \<noteq> Some (Inl (LookupOutOfBounds k))"
  proof
    assume a: "decodeToBin outside charSigned encodeBase64 s = Some (Inl (LookupOutOfBounds k))"
    show False
    proof (cases "decodeToBinValidateBase64 outside charSigned s")
      case None
      with a show False by (simp add: decodeToBin_def decodeToBinBase64_def)
    next
      case (Some y)
      show False
      proof (cases y)
        case (Inl e)
        with Some a v show False
          by (simp add: decodeToBin_def decodeToBinBase64_def decodeToBinValidate_def)
      next
        case (Inr u)
        with Some a have "decodeLoop outside charSigned s 0 [] = Some (Inl (LookupOutOfBounds k))"
          by (simp add: decodeToBin_def decodeToBinBase64_def)
        from decodeLoop_Inl [OF this] decodeGroup_in_bounds [OF assms, of outside]
        show False by blast
      qed
    qed
  qed
qed

lemma lookups_in_bounds_unsigned:
  "decodeToBinValidate outside False encodeBase64 s \<noteq> Some (Inl (LookupOutOfBounds k))"
  "decodeToBin outside False encodeBase64 s \<noteq> Some (Inl (LookupOutOfBounds k))"
  by (rule lookups_in_bounds; simp add: charToInt_unsigned)+

text \<open>
  C9, at the byte \<open>0x80\<close>, plain \<^verbatim>\<open>char\<close> being signed. \<^verbatim>\<open>(int)source[sourceIdx]\<close> is
  \<open>-128\<close> for this byte, and both the validator and the decoder (which validates first)
  read \<^verbatim>\<open>decodeBase64Lookup[-128]\<close>, outside the table.
\<close>

theorem lookup_negative_index:
  "charToInt True (CHR 0x80) = - 128 \<and>
   decodeToBinValidate Checked True encodeBase64 [CHR 0x80, CHR ''A'', CHR ''A'', CHR ''A''] =
     Some (Inl (LookupOutOfBounds (- 128))) \<and>
   decodeToBin Checked True encodeBase64 [CHR 0x80, CHR ''A'', CHR ''A'', CHR ''A''] =
     Some (Inl (LookupOutOfBounds (- 128)))"
  by (simp add: decodeToBin_def decodeToBinBase64_def decodeToBinValidate_def
      decodeToBinValidateBase64_def strlen_def validateLoop.simps validateChar_def charAt_def
      charToInt_def decodeBase64LookupAt_def)

subsection \<open>C10: the reads of the last two characters\<close>

text \<open>
  For a text that passes validation and is not empty, the reads of the last and of the
  second-to-last character are inside the text: its length is at least 4.
\<close>

lemma trailing_reads_in_bounds:
  assumes "decodeToBinValidate outside charSigned encodeBase64 source = Some (Inr ())"
    "source \<noteq> []"
  shows "charAt source (int (size_sub (strlen source) 1)) = Inr (source ! (length source - 1))"
    and "charAt source (int (size_sub (strlen source) 2)) = Inr (source ! (length source - 2))"
proof -
  from assms(1) have v: "decodeToBinValidateBase64 outside charSigned source = Some (Inr ())"
    by (simp add: decodeToBinValidate_def)
  from validate_Inr(1) [OF v] assms(2) have len: "4 \<le> length source"
    by (cases "length source < 4") auto
  then show "charAt source (int (size_sub (strlen source) 1)) = Inr (source ! (length source - 1))"
    "charAt source (int (size_sub (strlen source) 2)) = Inr (source ! (length source - 2))"
    using charAt_nth [of "length source - 1" source] charAt_nth [of "length source - 2" source]
    by (simp_all add: strlen_def)
qed

text \<open>
  C10, at the empty text. The empty text passes validation; \<^verbatim>\<open>sourceSize - 1\<close> is then
  \<^verbatim>\<open>SIZE_MAX\<close>, and the read of \<^verbatim>\<open>source[sourceSize - 1]\<close> by \<open>decodeToBinSizeBase64\<close> is
  outside the string.
\<close>

theorem trailing_read_empty:
  "decodeToBinValidate outside charSigned encodeBase64 '''' = Some (Inr ()) \<and>
   size_sub (strlen '''') 1 = 18446744073709551615 \<and>
   charAt '''' (int (size_sub (strlen '''') 1)) = Inl (SourceOutOfBounds 18446744073709551615) \<and>
   decodeToBinSizeBase64 outside charSigned '''' =
     Some (Inl (SourceOutOfBounds 18446744073709551615))"
  by (simp add: decodeToBinValidate_def decodeToBinValidateBase64_def decodeToBinSizeBase64_def
      strlen_def validateLoop_done charAt_def size_sub_def)

end
